theory Spec2Isabelle
  imports Main
begin

section \<open>Strings, escaping and the row compiler\<close>

text \<open>
  The script is Python 2: a \<open>str\<close> is a byte string, modelled as \<open>string\<close>
  (a list of 8-bit characters).
\<close>

definition ALPHANUM :: string where
  "ALPHANUM = ''abcdefghijklmnopqrstuvwxyzABCDEFGHIJKLMNOPQRSTUVWXYZ0123456789''"

abbreviation backslash :: char where
  "backslash \<equiv> CHR 0x5C"

text \<open>
  \<open>escape(string, except_chars)\<close>: every character outside \<open>ALPHANUM + except_chars\<close>
  is replaced by a backslash and the character, NUL by a backslash and \<open>000\<close>; the pieces
  are joined.
\<close>

definition escape :: "string \<Rightarrow> string \<Rightarrow> string" where
  "escape string except_chars =
     concat (map (\<lambda>c. if c \<in> set (ALPHANUM @ except_chars) then [c]
                      else if c = CHR 0x00 then [backslash, CHR ''0'', CHR ''0'', CHR ''0'']
                      else [backslash, c]) string)"

text \<open>
  The whitespace class of Python 2: what \<open>\s\<close> matches without flags and what
  \<open>str.rstrip()\<close> strips: space, tab, line feed, vertical tab, form feed, carriage return.
\<close>

definition is_space :: "char \<Rightarrow> bool" where
  "is_space c = (c \<in> set [CHR '' '', CHR 0x09, CHR 0x0A, CHR 0x0B, CHR 0x0C, CHR 0x0D])"

text \<open>Decimal rendering of a length, as \<open>'{length}'.format(...)\<close> writes it.\<close>

fun str_nat :: "nat \<Rightarrow> string" where
  "str_nat n = (if n < 10 then [''0123456789'' ! n]
                else str_nat (n div 10) @ [''0123456789'' ! (n mod 10)])"

declare str_nat.simps [simp del]

text \<open>
  \<open>_format_bug_replace_match_with_regex\<close>: a matched run of whitespace becomes
  \<open>.{N}\<close>, with \<open>N\<close> the length of the run.
\<close>

definition format_bug_replace_match_with_regex :: "string \<Rightarrow> string" where
  "format_bug_replace_match_with_regex group0 = ''.{'' @ str_nat (length group0) @ ''}''"

text \<open>
  \<open>re.sub(r'\s+', repl, s)\<close>: every maximal run of whitespace, left to right, is replaced
  by what \<open>repl\<close> returns for it.
\<close>

function re_sub_spaces :: "(string \<Rightarrow> string) \<Rightarrow> string \<Rightarrow> string" where
  "re_sub_spaces repl [] = []"
| "re_sub_spaces repl (c # cs) =
     (if is_space c
      then repl (c # takeWhile is_space cs) @ re_sub_spaces repl (dropWhile is_space cs)
      else c # re_sub_spaces repl cs)"
  by pat_completeness auto
termination
  by (relation "measure (\<lambda>(repl, s). length s)")
     (auto simp: less_Suc_eq_le length_dropWhile_le)

text \<open>
  \<open>Bug.Part._format_pattern\<close>: the first character escaped, then a lookahead holding the
  rest, escaped except for the space, with whitespace runs replaced. For the empty string the
  \<open>if pattern:\<close> test fails and the method falls off its end: it returns \<open>None\<close> and
  raises nothing.
\<close>

definition format_pattern :: "string \<Rightarrow> string option" where
  "format_pattern pattern =
     (case pattern of
        [] \<Rightarrow> None
      | c # cs \<Rightarrow>
          (let shape_part_first_char = escape [c] [];
               shape_part_rest_chars = escape cs '' '';
               shape_part_rest_chars' =
                 re_sub_spaces format_bug_replace_match_with_regex shape_part_rest_chars
           in Some (shape_part_first_char @ ''(?='' @ shape_part_rest_chars' @ '')'')))"

section \<open>The regular expressions the compiler emits\<close>

text \<open>
  Python's \<open>re\<close> module is a library, not code of the repository. Its behaviour is
  modelled on the fragment of patterns \<open>_format_pattern\<close> can emit: alphanumeric
  literals, a backslash before a non-alphanumeric character (that character, literally),
  \<open>\000\<close> (NUL), the dot (any character but a line feed), a repetition \<open>{N}\<close> of the
  atom before it, and one level of lookahead \<open>(?=...)\<close>. Anything else does not parse.
\<close>

datatype atom = Lit char | AnyChar

type_synonym item = "atom \<times> nat"

datatype piece = Item atom nat | Look "item list"

definition digit_val :: "char \<Rightarrow> nat option" where
  "digit_val c = (if c \<in> set ''0123456789'' then Some (of_char c - 48) else None)"

fun read_digits :: "nat \<Rightarrow> string \<Rightarrow> nat \<times> string" where
  "read_digits acc [] = (acc, [])"
| "read_digits acc (c # cs) =
     (case digit_val c of
        Some d \<Rightarrow> read_digits (acc * 10 + d) cs
      | None \<Rightarrow> (acc, c # cs))"

definition parse_atom :: "string \<Rightarrow> (atom \<times> string) option" where
  "parse_atom s =
     (case s of
        [] \<Rightarrow> None
      | c # cs \<Rightarrow>
          if c = backslash then
            (case cs of
               [] \<Rightarrow> None
             | d # ds \<Rightarrow>
                 if d \<in> set ALPHANUM then
                   (if take 3 cs = ''000'' then Some (Lit (CHR 0x00), drop 3 cs) else None)
                 else Some (Lit d, ds))
          else if c = CHR ''.'' then Some (AnyChar, cs)
          else if c \<in> set ALPHANUM then Some (Lit c, cs)
          else None)"

definition parse_repeat :: "string \<Rightarrow> (nat \<times> string) option" where
  "parse_repeat s =
     (case s of
        [] \<Rightarrow> Some (1, s)
      | c # cs \<Rightarrow>
          if c = CHR ''{'' then
            (case cs of
               [] \<Rightarrow> None
             | d # ds \<Rightarrow>
                 if digit_val d = None then None
                 else (case read_digits 0 cs of
                         (n, []) \<Rightarrow> None
                       | (n, e # rest) \<Rightarrow> if e = CHR ''}'' then Some (n, rest) else None))
          else Some (1, s))"

lemma parse_atom_shorter:
  "parse_atom s = Some (a, r) \<Longrightarrow> length r < length s"
  by (auto simp: parse_atom_def split: list.splits if_splits)

lemma read_digits_length:
  "read_digits acc s = (n, r) \<Longrightarrow> length r \<le> length s"
  by (induction s arbitrary: acc) (auto split: option.splits, fastforce)

lemma parse_repeat_length:
  "parse_repeat s = Some (n, r) \<Longrightarrow> length r \<le> length s"
  by (auto simp: parse_repeat_def split: list.splits if_splits prod.splits
      dest!: read_digits_length)

function parse_items :: "string \<Rightarrow> (item list \<times> string) option" where
  "parse_items s =
     (if s = [] \<or> hd s = CHR '')'' then Some ([], s)
      else (case parse_atom s of
              None \<Rightarrow> None
            | Some (a, r) \<Rightarrow>
                (case parse_repeat r of
                   None \<Rightarrow> None
                 | Some (n, r') \<Rightarrow>
                     (case parse_items r' of
                        None \<Rightarrow> None
                      | Some (its, r'') \<Rightarrow> Some ((a, n) # its, r'')))))"
  by pat_completeness auto
termination
  by (relation "measure length")
     (auto dest!: parse_atom_shorter parse_repeat_length)

declare parse_items.simps [simp del]

lemma parse_items_length:
  "parse_items s = Some (its, r) \<Longrightarrow> length r \<le> length s"
proof (induction s arbitrary: its r rule: parse_items.induct)
  case (1 s)
  show ?case
  proof (cases "s = [] \<or> hd s = CHR '')''")
    case True
    with "1.prems" show ?thesis by (simp add: parse_items.simps)
  next
    case False
    from False "1.prems" obtain a r1 n r2 its' where
      pa: "parse_atom s = Some (a, r1)" and pr: "parse_repeat r1 = Some (n, r2)"
      and pi: "parse_items r2 = Some (its', r)"
      by (subst (asm) parse_items.simps) (auto split: option.splits)
    have "length r \<le> length r2"
      by (rule "1.IH" [OF False pa refl pr refl pi])
    with parse_atom_shorter [OF pa] parse_repeat_length [OF pr] show ?thesis by simp
  qed
qed

function parse_pieces :: "string \<Rightarrow> piece list option" where
  "parse_pieces s =
     (if s = [] then Some []
      else if take 3 s = ''(?='' then
        (case parse_items (drop 3 s) of
           None \<Rightarrow> None
         | Some (its, r) \<Rightarrow>
             (case r of
                [] \<Rightarrow> None
              | c # r' \<Rightarrow> map_option (\<lambda>ps. Look its # ps) (parse_pieces r')))
      else (case parse_atom s of
              None \<Rightarrow> None
            | Some (a, r) \<Rightarrow>
                (case parse_repeat r of
                   None \<Rightarrow> None
                 | Some (n, r') \<Rightarrow> map_option (\<lambda>ps. Item a n # ps) (parse_pieces r'))))"
  by pat_completeness auto
termination
  by (relation "measure length")
     (auto dest!: parse_atom_shorter parse_repeat_length parse_items_length)

declare parse_pieces.simps [simp del]

fun atom_ok :: "atom \<Rightarrow> char \<Rightarrow> bool" where
  "atom_ok (Lit c) x = (x = c)"
| "atom_ok AnyChar x = (x \<noteq> CHR 0x0A)"

text \<open>
  Matching at the start of a string: the number of characters consumed, or \<open>None\<close>.
  The fragment has no alternation and no variable repetition, so there is no backtracking.
\<close>

fun match_items :: "item list \<Rightarrow> string \<Rightarrow> nat option" where
  "match_items [] s = Some 0"
| "match_items ((a, n) # its) s =
     (if n \<le> length s \<and> list_all (atom_ok a) (take n s)
      then map_option (\<lambda>k. n + k) (match_items its (drop n s))
      else None)"

fun match_pieces :: "piece list \<Rightarrow> string \<Rightarrow> nat option" where
  "match_pieces [] s = Some 0"
| "match_pieces (Item a n # ps) s =
     (if n \<le> length s \<and> list_all (atom_ok a) (take n s)
      then map_option (\<lambda>k. n + k) (match_pieces ps (drop n s))
      else None)"
| "match_pieces (Look its # ps) s =
     (if match_items its s \<noteq> None then match_pieces ps s else None)"


datatype error = ValueError | IndexError | TypeError | PatternError

text \<open>
  \<open>re.finditer(pattern, string)\<close>: the start of every match, scanning left to right;
  after a match the scan resumes at its end. (Where a match is empty the scan moves one
  column on; no compiled row matches the empty string, its first piece being the anchor.)
  A pattern that is \<open>None\<close> is a \<open>TypeError\<close>; one outside the modelled fragment is
  reported as \<open>PatternError\<close>.
\<close>

function scan :: "piece list \<Rightarrow> string \<Rightarrow> nat \<Rightarrow> nat list" where
  "scan ps s pos =
     (if length s < pos then []
      else (case match_pieces ps (drop pos s) of
              Some k \<Rightarrow> pos # scan ps s (pos + max k 1)
            | None \<Rightarrow> scan ps s (pos + 1)))"
  by pat_completeness auto
termination
  by (relation "measure (\<lambda>(ps, s, pos). Suc (length s) - pos)") auto

declare scan.simps [simp del]

definition finditer :: "string option \<Rightarrow> string \<Rightarrow> error + nat list" where
  "finditer pat s =
     (case pat of
        None \<Rightarrow> Inl TypeError
      | Some p \<Rightarrow> (case parse_pieces p of
                     None \<Rightarrow> Inl PatternError
                   | Some ps \<Rightarrow> Inr (scan ps s 0)))"

section \<open>Files, lines and the bug shape\<close>

text \<open>
  \<open>File.Line\<close> has an id and a pattern. \<open>Bug.Part\<close> is a \<open>File.Line\<close> whose pattern
  setter stores the compiled pattern, which is \<open>None\<close> for an empty row.
\<close>

record Line =
  line_id :: int
  line_pattern :: string

record Part =
  part_id :: int
  part_pattern :: "string option"

text \<open>A file's content is cut at line feeds; iterating a file handler yields these lines.\<close>

fun file_lines :: "string \<Rightarrow> string list" where
  "file_lines [] = []"
| "file_lines (c # cs) =
     (if c = CHR 0x0A then [] # file_lines cs
      else (case file_lines cs of
              [] \<Rightarrow> [[c]]
            | l # ls \<Rightarrow> (c # l) # ls))"

definition rstrip :: "string \<Rightarrow> string" where
  "rstrip s = rev (dropWhile is_space (rev s))"

text \<open>
  \<open>File.reader\<close>: the lines are numbered by \<open>enumerate\<close>, stripped on the right, and
  those left empty are not yielded; a yielded line keeps its number in the file.
\<close>

fun reader_from :: "int \<Rightarrow> string list \<Rightarrow> Line list" where
  "reader_from i [] = []"
| "reader_from i (l # ls) =
     (let pattern = rstrip l
      in if pattern \<noteq> [] then \<lparr>line_id = i, line_pattern = pattern\<rparr> # reader_from (i + 1) ls
         else reader_from (i + 1) ls)"

definition reader :: "string \<Rightarrow> Line list" where
  "reader content = reader_from 0 (file_lines content)"

definition mk_Part :: "Line \<Rightarrow> Part" where
  "mk_Part line = \<lparr>part_id = line_id line, part_pattern = format_pattern (line_pattern line)\<rparr>"

text \<open>\<open>Bug._read_bug\<close>: one part for each line the reader yields.\<close>

definition read_bug :: "string \<Rightarrow> Part list" where
  "read_bug content = map mk_Part (reader content)"

section \<open>The match table\<close>

text \<open>
  \<open>bug_part_matches\<close> is a \<open>defaultdict\<close> of \<open>defaultdict(list)\<close>. Only the presence of
  an inner key is ever tested, so the table is a partial map from (line number, part id) to
  the list of positions. Reading \<open>bug_part_matches[l][r]\<close> creates the key with an empty
  list when it is absent (\<open>touch\<close>).
\<close>

type_synonym table = "int \<times> int \<Rightarrow> nat list option"

definition positions :: "table \<Rightarrow> int \<Rightarrow> int \<Rightarrow> nat list" where
  "positions t l r = (case t (l, r) of None \<Rightarrow> [] | Some ps \<Rightarrow> ps)"

definition touch :: "table \<Rightarrow> int \<Rightarrow> int \<Rightarrow> table" where
  "touch t l r = (case t (l, r) of None \<Rightarrow> t((l, r) \<mapsto> []) | Some ps \<Rightarrow> t)"

record BugFinder =
  bug_part_matches :: table
  bug_count :: nat

definition new_BugFinder :: BugFinder where
  "new_BugFinder = \<lparr>bug_part_matches = Map.empty, bug_count = 0\<rparr>"

definition increment_bug_count :: "BugFinder \<Rightarrow> BugFinder" where
  "increment_bug_count s = s\<lparr>bug_count := bug_count s + 1\<rparr>"

definition bug_part_match_exists :: "table \<Rightarrow> Part \<Rightarrow> Line \<Rightarrow> bool" where
  "bug_part_match_exists t bug_part landscape_line =
     (t (line_id landscape_line, part_id bug_part) \<noteq> None)"

definition register_bug_part_match :: "table \<Rightarrow> Part \<Rightarrow> Line \<Rightarrow> nat \<Rightarrow> table" where
  "register_bug_part_match t bug_part landscape_line bug_part_match_position =
     t((line_id landscape_line, part_id bug_part) \<mapsto>
        positions t (line_id landscape_line) (part_id bug_part) @ [bug_part_match_position])"

text \<open>
  \<open>deregister_bug_match\<close>: over the shape reversed, one line up at each step;
  \<open>list.remove\<close> deletes the first occurrence and raises \<open>ValueError\<close> when there is none.
\<close>

fun deregister_loop :: "table \<Rightarrow> Part list \<Rightarrow> int \<Rightarrow> nat \<Rightarrow> error + table" where
  "deregister_loop t [] landscape_line_number pos = Inr t"
| "deregister_loop t (bug_part # rest) landscape_line_number pos =
     (if pos \<in> set (positions t landscape_line_number (part_id bug_part))
      then deregister_loop
             (t((landscape_line_number, part_id bug_part) \<mapsto>
                 remove1 pos (positions t landscape_line_number (part_id bug_part))))
             rest (landscape_line_number - 1) pos
      else Inl ValueError)"

definition deregister_bug_match :: "Part list \<Rightarrow> table \<Rightarrow> Line \<Rightarrow> nat \<Rightarrow> error + table" where
  "deregister_bug_match shape t landscape_line bug_part_match_position =
     deregister_loop t (rev shape) (line_id landscape_line) bug_part_match_position"

definition should_skip_all_bug_parts_in_line :: "table \<Rightarrow> Part \<Rightarrow> Line \<Rightarrow> bool" where
  "should_skip_all_bug_parts_in_line t bug_part landscape_line =
     (if line_id landscape_line - part_id bug_part \<le> 0
      then \<not> bug_part_match_exists t bug_part landscape_line
      else False)"

definition should_skip_bug_part_in_line :: "table \<Rightarrow> Part \<Rightarrow> Line \<Rightarrow> bool" where
  "should_skip_bug_part_in_line t bug_part landscape_line =
     (if line_id landscape_line - 1 \<ge> 0 \<and> part_id bug_part - 1 \<ge> 0
      then t (line_id landscape_line - 1, part_id bug_part - 1) = None
      else False)"

text \<open>
  \<open>bug_part_match_belongs_to_a_bug\<close>: for the last part of the shape, the position is
  looked up for every earlier part, one line up at each step. The lookup goes through the
  \<open>defaultdict\<close>, so it creates the keys it reads. \<open>shape[-1]\<close> of an empty shape is an
  \<open>IndexError\<close>.
\<close>

fun belongs_loop :: "table \<Rightarrow> Part list \<Rightarrow> int \<Rightarrow> nat \<Rightarrow> bool \<times> table" where
  "belongs_loop t [] landscape_line_number pos = (True, t)"
| "belongs_loop t (bug_part # rest) landscape_line_number pos =
     (let landscape_line_number' = landscape_line_number - 1;
          t' = touch t landscape_line_number' (part_id bug_part)
      in if pos \<notin> set (positions t' landscape_line_number' (part_id bug_part))
         then (False, t')
         else belongs_loop t' rest landscape_line_number' pos)"

definition bug_part_match_belongs_to_a_bug ::
  "Part list \<Rightarrow> table \<Rightarrow> Part \<Rightarrow> Line \<Rightarrow> nat \<Rightarrow> error + bool \<times> table" where
  "bug_part_match_belongs_to_a_bug shape t bug_part landscape_line bug_part_match_position =
     (if shape = [] then Inl IndexError
      else if part_id bug_part = part_id (last shape)
      then Inr (belongs_loop t (rev (butlast shape)) (line_id landscape_line)
                  bug_part_match_position)
      else Inr (False, t))"

section \<open>The engine\<close>

fun find_loop :: "Part list \<Rightarrow> BugFinder \<Rightarrow> Part \<Rightarrow> Line \<Rightarrow> nat list \<Rightarrow> error + BugFinder" where
  "find_loop shape s bug_part landscape_line [] = Inr s"
| "find_loop shape s bug_part landscape_line (bug_part_match_position # rest) =
     (let t1 = register_bug_part_match (bug_part_matches s) bug_part landscape_line
                 bug_part_match_position
      in case bug_part_match_belongs_to_a_bug shape t1 bug_part landscape_line
                bug_part_match_position of
           Inl e \<Rightarrow> Inl e
         | Inr (True, t2) \<Rightarrow>
             (case deregister_bug_match shape t2 landscape_line bug_part_match_position of
                Inl e \<Rightarrow> Inl e
              | Inr t3 \<Rightarrow>
                  find_loop shape ((increment_bug_count s)\<lparr>bug_part_matches := t3\<rparr>)
                    bug_part landscape_line rest)
         | Inr (False, t2) \<Rightarrow>
             find_loop shape (s\<lparr>bug_part_matches := t2\<rparr>) bug_part landscape_line rest)"

definition find_bug_part_and_bugs_in_landscape_line ::
  "Part list \<Rightarrow> BugFinder \<Rightarrow> Part \<Rightarrow> Line \<Rightarrow> error + BugFinder" where
  "find_bug_part_and_bugs_in_landscape_line shape s bug_part landscape_line =
     (case finditer (part_pattern bug_part) (line_pattern landscape_line) of
        Inl e \<Rightarrow> Inl e
      | Inr cols \<Rightarrow> find_loop shape s bug_part landscape_line cols)"

text \<open>
  The inner loop of \<open>find_bugs_in_landscape\<close> over the parts of the shape, for one line:
  \<open>continue\<close> goes on with the next part, \<open>break\<close> leaves the loop.
\<close>

fun parts_loop :: "Part list \<Rightarrow> BugFinder \<Rightarrow> Line \<Rightarrow> Part list \<Rightarrow> error + BugFinder" where
  "parts_loop shape s landscape_line [] = Inr s"
| "parts_loop shape s landscape_line (bug_part # rest) =
     (if should_skip_bug_part_in_line (bug_part_matches s) bug_part landscape_line
      then parts_loop shape s landscape_line rest
      else (case find_bug_part_and_bugs_in_landscape_line shape s bug_part landscape_line of
              Inl e \<Rightarrow> Inl e
            | Inr s' \<Rightarrow>
                if should_skip_all_bug_parts_in_line (bug_part_matches s') bug_part
                     landscape_line
                then Inr s'
                else parts_loop shape s' landscape_line rest))"

fun lines_loop :: "Part list \<Rightarrow> BugFinder \<Rightarrow> Line list \<Rightarrow> error + BugFinder" where
  "lines_loop shape s [] = Inr s"
| "lines_loop shape s (landscape_line # rest) =
     (case parts_loop shape s landscape_line shape of
        Inl e \<Rightarrow> Inl e
      | Inr s' \<Rightarrow> lines_loop shape s' rest)"

text \<open>
  \<open>find_bugs_in_landscape\<close> on a fresh \<open>BugFinder\<close>, for a bug file and a landscape file
  given by their contents; the result is the bug count.
\<close>

definition find_bugs_in_landscape :: "Part list \<Rightarrow> string \<Rightarrow> error + nat" where
  "find_bugs_in_landscape shape landscape =
     map_sum id bug_count (lines_loop shape new_BugFinder (reader landscape))"

definition bug_finder_main :: "string \<Rightarrow> string \<Rightarrow> error + nat" where
  "bug_finder_main bug landscape = find_bugs_in_landscape (read_bug bug) landscape"

section \<open>Auxiliary notions\<close>

text \<open>
  The position is present for every part of the list, the first at the given line and each
  further one a line higher up: what \<open>deregister_bug_match\<close> needs in order not to raise.
\<close>

fun chain_present :: "table \<Rightarrow> Part list \<Rightarrow> int \<Rightarrow> nat \<Rightarrow> bool" where
  "chain_present t [] ln pos = True"
| "chain_present t (p # ps) ln pos =
     (pos \<in> set (positions t ln (part_id p)) \<and> chain_present t ps (ln - 1) pos)"

text \<open>
  What the compiled lookahead of a row stands for, read off the row itself: a run that starts
  with a space is one dot repeated over the run; a whitespace character other than the space
  is escaped, so that the run starting with it leaves its backslash in front of the dot and
  becomes a literal dot, repeated; every other character is itself.
\<close>

abbreviation (input) is_blank :: "char \<Rightarrow> bool" where
  "is_blank x \<equiv> x = CHR '' ''"

function constraints :: "string \<Rightarrow> item list" where
  "constraints [] = []"
| "constraints (c # cs) =
     (if is_space c
      then ((if c = CHR '' '' then AnyChar else Lit (CHR ''.'')),
            1 + length (takeWhile (\<lambda>x. x = CHR '' '') cs))
           # constraints (dropWhile (\<lambda>x. x = CHR '' '') cs)
      else (Lit c, 1) # constraints cs)"
  by pat_completeness auto
termination
  by (relation "measure length") (auto simp: less_Suc_eq_le length_dropWhile_le)

text \<open>The substituted rest of a row, as it stands inside the lookahead.\<close>

abbreviation (input) rest_regex :: "string \<Rightarrow> string" where
  "rest_regex cs \<equiv> re_sub_spaces format_bug_replace_match_with_regex (escape cs '' '')"

text \<open>
  The compiled row matches at a column: \<open>re.match\<close> of the pattern at that position of
  the string.
\<close>

definition matches_at :: "string option \<Rightarrow> string \<Rightarrow> nat \<Rightarrow> bool" where
  "matches_at pat s c =
     (case pat of
        None \<Rightarrow> False
      | Some p \<Rightarrow> (case parse_pieces p of
                     None \<Rightarrow> False
                   | Some ps \<Rightarrow> c \<le> length s \<and> match_pieces ps (drop c s) \<noteq> None))"

text \<open>
  The lines that have a position registered, and the shapes whose parts all carry the
  compiled pattern of a row that is not empty.
\<close>

definition lines_of :: "table \<Rightarrow> int set" where
  "lines_of t = {l. \<exists>r. positions t l r \<noteq> []}"

definition compiled :: "Part list \<Rightarrow> bool" where
  "compiled shape = (\<forall>p \<in> set shape. \<exists>a rest. part_pattern p = format_pattern (a # rest))"

text \<open>
  Every list of the table is free of repetitions, as it is in every state of a pass
  (lemma \<open>lines_loop_distinct\<close>).
\<close>

definition table_distinct :: "table \<Rightarrow> bool" where
  "table_distinct t = (\<forall>l r. distinct (positions t l r))"

text \<open>
  Counting cells: the positions registered for a row id on the lines of a landscape, the
  columns at which a part matches a line, and the cells that the rows with a given id match
  anywhere in the landscape.
\<close>

definition cells :: "table \<Rightarrow> int \<Rightarrow> Line list \<Rightarrow> nat" where
  "cells t r ls = sum_list (map (\<lambda>l. length (positions t (line_id l) r)) ls)"

definition ncols :: "Part \<Rightarrow> Line \<Rightarrow> nat" where
  "ncols p l = (case finditer (part_pattern p) (line_pattern l) of
                  Inl e \<Rightarrow> 0
                | Inr cols \<Rightarrow> length cols)"

definition matched_cells :: "Part list \<Rightarrow> int \<Rightarrow> Line list \<Rightarrow> nat" where
  "matched_cells shape r ls =
     sum_list (map (\<lambda>l. sum_list (map (\<lambda>q. if part_id q = r then ncols q l else 0) shape)) ls)"

text \<open>
  The engine with both pruning rules disabled, for comparison:
  \<open>should_skip_bug_part_in_line\<close> and \<open>should_skip_all_bug_parts_in_line\<close> taken as
  always false, so that every part is searched for in every line.
\<close>

fun parts_loop_no_pruning :: "Part list \<Rightarrow> BugFinder \<Rightarrow> Line \<Rightarrow> Part list \<Rightarrow> error + BugFinder" where
  "parts_loop_no_pruning shape s landscape_line [] = Inr s"
| "parts_loop_no_pruning shape s landscape_line (bug_part # rest) =
     (case find_bug_part_and_bugs_in_landscape_line shape s bug_part landscape_line of
        Inl e \<Rightarrow> Inl e
      | Inr s' \<Rightarrow> parts_loop_no_pruning shape s' landscape_line rest)"

fun lines_loop_no_pruning :: "Part list \<Rightarrow> BugFinder \<Rightarrow> Line list \<Rightarrow> error + BugFinder" where
  "lines_loop_no_pruning shape s [] = Inr s"
| "lines_loop_no_pruning shape s (landscape_line # rest) =
     (case parts_loop_no_pruning shape s landscape_line shape of
        Inl e \<Rightarrow> Inl e
      | Inr s' \<Rightarrow> lines_loop_no_pruning shape s' rest)"

definition find_bugs_in_landscape_no_pruning :: "Part list \<Rightarrow> string \<Rightarrow> error + nat" where
  "find_bugs_in_landscape_no_pruning shape landscape =
     map_sum id bug_count (lines_loop_no_pruning shape new_BugFinder (reader landscape))"

text \<open>
  For the comparison of the two engines. A shape is contiguous when its parts carry the ids
  0, 1, 2, \<open>\<dots>\<close> in order. A cell is live when its column is registered for its row
  and, one line up each time, for every row above it up to row 0. The relation between the
  table of the pruning engine and the table of the engine without pruning, up to a line:
  the first holds no more than the second, and all of its live cells.
\<close>

definition contiguous :: "Part list \<Rightarrow> bool" where
  "contiguous shape = (map part_id shape = map int [0..<length shape])"

definition live :: "table \<Rightarrow> int \<Rightarrow> int \<Rightarrow> nat \<Rightarrow> bool" where
  "live t l r c = (0 \<le> r \<and> (\<forall>j. 0 \<le> j \<and> j \<le> r \<longrightarrow> c \<in> set (positions t (l - j) (r - j))))"

definition rel :: "int \<Rightarrow> table \<Rightarrow> table \<Rightarrow> bool" where
  "rel L tP tU =
     (table_distinct tP \<and> table_distinct tU
      \<and> (\<forall>l r. set (positions tP l r) \<subseteq> set (positions tU l r))
      \<and> (\<forall>l r c. live tU l r c \<longrightarrow> c \<in> set (positions tP l r))
      \<and> (\<forall>l r. positions tU l r \<noteq> [] \<longrightarrow> 0 \<le> l \<and> l \<le> L))"


text \<open>
  The rest of a pass from the middle of \<open>find_bug_part_and_bugs_in_landscape_line\<close>: the
  columns still to come for the part at the line, then what \<open>find_bugs_in_landscape\<close>
  does after the part (the test for \<open>break\<close>, the parts after it, the lines after the
  line).
\<close>

definition pass_from ::
  "Part list \<Rightarrow> BugFinder \<Rightarrow> Part \<Rightarrow> Line \<Rightarrow> nat list \<Rightarrow> Part list \<Rightarrow> Line list
     \<Rightarrow> error + BugFinder" where
  "pass_from shape s bug_part landscape_line cols rest_parts rest_lines =
     (case find_loop shape s bug_part landscape_line cols of
        Inl e \<Rightarrow> Inl e
      | Inr s1 \<Rightarrow>
          (case (if should_skip_all_bug_parts_in_line (bug_part_matches s1) bug_part landscape_line
                 then Inr s1
                 else parts_loop shape s1 landscape_line rest_parts) of
             Inl e \<Rightarrow> Inl e
           | Inr s2 \<Rightarrow> lines_loop shape s2 rest_lines))"

section \<open>Lemmas on the match table\<close>

lemma positions_touch [simp]: "positions (touch t l r) l' r' = positions t l' r'"
  by (auto simp: positions_def touch_def split: option.splits)

lemma positions_upd:
  "positions (t((l, r) \<mapsto> xs)) l' r' = (if l' = l \<and> r' = r then xs else positions t l' r')"
  by (simp add: positions_def)

lemma chain_present_cong:
  "(\<And>l r. l \<le> ln \<Longrightarrow> positions t' l r = positions t l r) \<Longrightarrow>
   chain_present t' ps ln pos = chain_present t ps ln pos"
  by (induction ps arbitrary: ln) auto

lemma belongs_loop_result:
  "belongs_loop t ps ln pos = (b, t') \<Longrightarrow>
   (\<forall>l r. positions t' l r = positions t l r) \<and> (b = chain_present t ps (ln - 1) pos)"
proof (induction ps arbitrary: t ln)
  case Nil
  then show ?case by auto
next
  case (Cons p ps)
  show ?case
  proof (cases "pos \<in> set (positions t (ln - 1) (part_id p))")
    case False
    with Cons.prems show ?thesis by (auto simp: Let_def)
  next
    case True
    with Cons.prems have "belongs_loop (touch t (ln - 1) (part_id p)) ps (ln - 1) pos = (b, t')"
      by (simp add: Let_def)
    from Cons.IH [OF this] True show ?thesis
      by (simp add: chain_present_cong [where t' = "touch t (ln - 1) (part_id p)" and t = t])
  qed
qed

lemma deregister_loop_ok:
  "chain_present t ps ln pos \<Longrightarrow> \<exists>t'. deregister_loop t ps ln pos = Inr t'"
proof (induction ps arbitrary: t ln)
  case Nil
  then show ?case by simp
next
  case (Cons p ps)
  let ?t = "t((ln, part_id p) \<mapsto> remove1 pos (positions t ln (part_id p)))"
  from Cons.prems have "chain_present t ps (ln - 1) pos" by simp
  then have "chain_present ?t ps (ln - 1) pos"
    by (subst chain_present_cong [where t = t]) (auto simp: positions_upd)
  from Cons.IH [OF this] obtain t' where
    "deregister_loop ?t ps (ln - 1) pos = Inr t'" by blast
  moreover from Cons.prems have "pos \<in> set (positions t ln (part_id p))" by simp
  ultimately show ?case by (simp del: fun_upd_apply)
qed

lemma rev_last_butlast: "xs \<noteq> [] \<Longrightarrow> rev xs = last xs # rev (butlast xs)"
  by (induction xs rule: rev_induct) simp_all

lemma positions_register_self:
  "pos \<in> set (positions (register_bug_part_match t p line pos) (line_id line) (part_id p))"
  by (simp add: register_bug_part_match_def positions_upd)

lemma belongs_gives_chain:
  assumes "bug_part_match_belongs_to_a_bug shape (register_bug_part_match t p line pos) p line pos
             = Inr (True, t2)"
  shows "chain_present t2 (rev shape) (line_id line) pos"
proof -
  let ?t1 = "register_bug_part_match t p line pos"
  from assms have ne: "shape \<noteq> []" and idl: "part_id p = part_id (last shape)"
    and bl: "belongs_loop ?t1 (rev (butlast shape)) (line_id line) pos = (True, t2)"
    by (auto simp: bug_part_match_belongs_to_a_bug_def split: if_splits)
  from belongs_loop_result [OF bl]
  have same: "\<And>l r. positions t2 l r = positions ?t1 l r"
    and ch: "chain_present ?t1 (rev (butlast shape)) (line_id line - 1) pos" by auto
  have ch2: "chain_present t2 (rev (butlast shape)) (line_id line - 1) pos"
    using ch by (simp add: chain_present_cong [where t' = t2 and t = ?t1] same)
  have "pos \<in> set (positions t2 (line_id line) (part_id (last shape)))"
    using positions_register_self [of pos t p line] by (simp add: same idl)
  with ch2 have "chain_present t2 (last shape # rev (butlast shape)) (line_id line) pos" by simp
  then show ?thesis by (simp only: rev_last_butlast [OF ne])
qed

lemma deregister_after_belongs:
  assumes "bug_part_match_belongs_to_a_bug shape (register_bug_part_match t p line pos) p line pos
             = Inr (True, t2)"
  shows "\<exists>t3. deregister_bug_match shape t2 line pos = Inr t3"
  using deregister_loop_ok [OF belongs_gives_chain [OF assms]]
  by (simp add: deregister_bug_match_def)

lemma find_loop_no_ValueError:
  "find_loop shape s p line cols \<noteq> Inl ValueError"
proof (induction cols arbitrary: s)
  case Nil
  then show ?case by simp
next
  case (Cons pos cols)
  let ?t1 = "register_bug_part_match (bug_part_matches s) p line pos"
  show ?case
  proof (cases "bug_part_match_belongs_to_a_bug shape ?t1 p line pos")
    case (Inl e)
    then have "e = IndexError"
      by (auto simp: bug_part_match_belongs_to_a_bug_def split: if_splits)
    with Inl show ?thesis by simp
  next
    case (Inr bt)
    obtain b t2 where bt: "bt = (b, t2)" by (cases bt)
    show ?thesis
    proof (cases b)
      case True
      with Inr bt deregister_after_belongs [of shape "bug_part_matches s" p line pos t2]
      obtain t3 where "deregister_bug_match shape t2 line pos = Inr t3" by auto
      with Inr bt True Cons.IH show ?thesis by simp
    next
      case False
      with Inr bt Cons.IH show ?thesis by simp
    qed
  qed
qed

lemma finditer_no_ValueError: "finditer pat s \<noteq> Inl ValueError"
  by (simp add: finditer_def split: option.splits)

lemma parts_loop_no_ValueError:
  "parts_loop shape s line ps \<noteq> Inl ValueError"
proof (induction ps arbitrary: s)
  case Nil
  then show ?case by simp
next
  case (Cons p ps)
  have "find_bug_part_and_bugs_in_landscape_line shape s p line \<noteq> Inl ValueError"
    using finditer_no_ValueError find_loop_no_ValueError
    by (auto simp: find_bug_part_and_bugs_in_landscape_line_def split: sum.splits)
  with Cons.IH show ?case by (auto split: sum.splits)
qed

lemma lines_loop_no_ValueError:
  "lines_loop shape s ls \<noteq> Inl ValueError"
  using parts_loop_no_ValueError
  by (induction ls arbitrary: s) (auto split: sum.splits)

section \<open>Keys of the match table\<close>

lemma touch_keeps_keys: "t k \<noteq> None \<Longrightarrow> touch t l r k \<noteq> None"
  by (auto simp: touch_def split: option.splits)

lemma belongs_loop_keeps_keys:
  "belongs_loop t ps ln pos = (b, t') \<Longrightarrow> t k \<noteq> None \<Longrightarrow> t' k \<noteq> None"
proof (induction ps arbitrary: t ln)
  case Nil
  then show ?case by simp
next
  case (Cons p ps)
  have tk: "touch t (ln - 1) (part_id p) k \<noteq> None"
    using Cons.prems(2) by (rule touch_keeps_keys)
  show ?case
  proof (cases "pos \<in> set (positions t (ln - 1) (part_id p))")
    case False
    with Cons.prems(1) tk show ?thesis by (auto simp: Let_def)
  next
    case True
    with Cons.prems(1)
    have "belongs_loop (touch t (ln - 1) (part_id p)) ps (ln - 1) pos = (b, t')"
      by (simp add: Let_def)
    from Cons.IH [OF this tk] show ?thesis .
  qed
qed

lemma deregister_loop_keeps_keys:
  "deregister_loop t ps ln pos = Inr t' \<Longrightarrow> t k \<noteq> None \<Longrightarrow> t' k \<noteq> None"
proof (induction ps arbitrary: t ln)
  case Nil
  then show ?case by simp
next
  case (Cons p ps)
  let ?t = "t((ln, part_id p) \<mapsto> remove1 pos (positions t ln (part_id p)))"
  from Cons.prems(1) have "deregister_loop ?t ps (ln - 1) pos = Inr t'"
    by (simp del: fun_upd_apply split: if_splits)
  moreover from Cons.prems(2) have "?t k \<noteq> None" by simp
  ultimately show ?case by (rule Cons.IH)
qed

lemma find_loop_keeps_keys:
  "find_loop shape s p line cols = Inr s' \<Longrightarrow> bug_part_matches s k \<noteq> None \<Longrightarrow>
   bug_part_matches s' k \<noteq> None"
proof (induction cols arbitrary: s)
  case Nil
  then show ?case by simp
next
  case (Cons pos cols)
  let ?t1 = "register_bug_part_match (bug_part_matches s) p line pos"
  have k1: "?t1 k \<noteq> None"
    using Cons.prems(2) by (simp add: register_bug_part_match_def)
  from Cons.prems(1) obtain b t2 where
    bel: "bug_part_match_belongs_to_a_bug shape ?t1 p line pos = Inr (b, t2)"
    by (auto simp: Let_def split: sum.splits)
  have k2: "t2 k \<noteq> None"
    using bel k1 belongs_loop_keeps_keys
    by (auto simp: bug_part_match_belongs_to_a_bug_def split: if_splits)
  show ?case
  proof (cases b)
    case True
    with Cons.prems(1) bel obtain t3 where
      de: "deregister_bug_match shape t2 line pos = Inr t3"
      and fl: "find_loop shape ((increment_bug_count s)\<lparr>bug_part_matches := t3\<rparr>) p line cols = Inr s'"
      by (auto simp: Let_def split: sum.splits)
    from de k2 have "t3 k \<noteq> None"
      unfolding deregister_bug_match_def by (rule deregister_loop_keeps_keys)
    with Cons.IH [OF fl] show ?thesis by simp
  next
    case False
    with Cons.prems(1) bel have
      "find_loop shape (s\<lparr>bug_part_matches := t2\<rparr>) p line cols = Inr s'"
      by (simp add: Let_def)
    from Cons.IH [OF this] k2 show ?thesis by simp
  qed
qed

lemma parts_loop_keeps_keys:
  "parts_loop shape s line ps = Inr s' \<Longrightarrow> bug_part_matches s k \<noteq> None \<Longrightarrow>
   bug_part_matches s' k \<noteq> None"
proof (induction ps arbitrary: s)
  case Nil
  then show ?case by simp
next
  case (Cons p ps)
  show ?case
  proof (cases "should_skip_bug_part_in_line (bug_part_matches s) p line")
    case True
    with Cons show ?thesis by simp
  next
    case False
    with Cons.prems(1) obtain s1 where
      f: "find_bug_part_and_bugs_in_landscape_line shape s p line = Inr s1"
      by (auto split: sum.splits)
    then have k1: "bug_part_matches s1 k \<noteq> None"
      using Cons.prems(2) find_loop_keeps_keys
      by (auto simp: find_bug_part_and_bugs_in_landscape_line_def split: sum.splits)
    show ?thesis
    proof (cases "should_skip_all_bug_parts_in_line (bug_part_matches s1) p line")
      case True
      with False f Cons.prems(1) k1 show ?thesis by simp
    next
      case nb: False
      with False f Cons.prems(1) have "parts_loop shape s1 line ps = Inr s'" by simp
      from Cons.IH [OF this k1] show ?thesis .
    qed
  qed
qed

lemma lines_loop_keeps_keys:
  "lines_loop shape s ls = Inr s' \<Longrightarrow> bug_part_matches s k \<noteq> None \<Longrightarrow>
   bug_part_matches s' k \<noteq> None"
proof (induction ls arbitrary: s)
  case Nil
  then show ?case by simp
next
  case (Cons l ls)
  from Cons.prems(1) obtain s1 where p: "parts_loop shape s l shape = Inr s1"
    and r: "lines_loop shape s1 ls = Inr s'"
    by (auto split: sum.splits)
  from parts_loop_keeps_keys [OF p Cons.prems(2)] Cons.IH [OF r] show ?case by simp
qed

text \<open>
  Claim C2 does not hold as stated. With the one-row shape \<open>a\<close> and the landscape
  \<open>a\<close>, the bug is counted and its position deregistered: the key (0, 0) stays in
  the table with an empty list, and \<open>bug_part_match_exists\<close> answers true with no
  column registered.
\<close>

theorem empty_list_kept_counterexample:
  "\<not> isl (lines_loop (read_bug ''a'') new_BugFinder (reader ''a''))
   \<and> bug_part_matches (projr (lines_loop (read_bug ''a'') new_BugFinder (reader ''a''))) (0, 0)
       = Some []
   \<and> bug_part_match_exists
       (bug_part_matches (projr (lines_loop (read_bug ''a'') new_BugFinder (reader ''a''))))
       \<lparr>part_id = 0, part_pattern = format_pattern ''a''\<rparr> \<lparr>line_id = 0, line_pattern = ''a''\<rparr>"
  by code_simp

text \<open>
  Claim C2, amended. After any pass, \<open>bug_part_match_exists\<close> is true for every key
  that has at least one column registered, and for every key that existed before: keys are
  never deleted, neither by \<open>deregister_bug_match\<close> nor by anything else, so the
  converse direction of the claim is lost once a list has been emptied.
\<close>

theorem registered_key_exists:
  assumes "lines_loop shape s ls = Inr s'"
  shows "(positions (bug_part_matches s') (line_id l) (part_id p) \<noteq> [] \<longrightarrow>
            bug_part_match_exists (bug_part_matches s') p l)
       \<and> (bug_part_match_exists (bug_part_matches s) p l \<longrightarrow>
            bug_part_match_exists (bug_part_matches s') p l)"
proof
  show "positions (bug_part_matches s') (line_id l) (part_id p) \<noteq> [] \<longrightarrow>
          bug_part_match_exists (bug_part_matches s') p l"
    by (auto simp: positions_def bug_part_match_exists_def split: option.splits)
  show "bug_part_match_exists (bug_part_matches s) p l \<longrightarrow>
          bug_part_match_exists (bug_part_matches s') p l"
    unfolding bug_part_match_exists_def
    using lines_loop_keeps_keys [OF assms] by blast
qed

theorem registered_key_exists_witness:
  "positions (bug_part_matches (projr (lines_loop (read_bug [CHR ''a'', CHR 0x0A, CHR ''b''])
       new_BugFinder (reader ''a'')))) 0 0 = [0]
   \<and> bug_part_match_exists (bug_part_matches (projr (lines_loop
       (read_bug [CHR ''a'', CHR 0x0A, CHR ''b'']) new_BugFinder (reader ''a''))))
       \<lparr>part_id = 0, part_pattern = None\<rparr> \<lparr>line_id = 0, line_pattern = ''a''\<rparr>"
proof -
  let ?run = "lines_loop (read_bug [CHR ''a'', CHR 0x0A, CHR ''b'']) new_BugFinder (reader ''a'')"
  have "\<not> isl ?run" by code_simp
  then have h: "?run = Inr (projr ?run)" by simp
  have p: "positions (bug_part_matches (projr ?run)) 0 0 = [0]" by code_simp
  from registered_key_exists [OF h, of "\<lparr>line_id = 0, line_pattern = ''a''\<rparr>"
      "\<lparr>part_id = 0, part_pattern = None\<rparr>"] p
  show ?thesis by simp
qed

section \<open>Shapes without rows, rows without characters\<close>

lemma reader_from_nonempty:
  "l \<in> set (reader_from i ls) \<Longrightarrow> line_pattern l \<noteq> []"
  by (induction ls arbitrary: i) (auto simp: Let_def split: if_splits)

lemma lines_loop_empty_shape: "lines_loop [] s ls = Inr s"
  by (induction ls) auto

text \<open>
  Claim C3 does not hold as stated. Compiling the empty row returns \<open>None\<close> and raises
  nothing; a bug file without rows gives the empty shape, and the engine reports the count 0
  for it.
\<close>

theorem empty_shape_counterexample:
  "format_pattern [] = None \<and> read_bug [] = [] \<and> bug_finder_main [] ''a'' = Inr 0"
  by code_simp

text \<open>
  Claim C3, amended. \<open>_format_pattern\<close> returns \<open>None\<close> for the empty row, without
  an error; with a shape of zero rows \<open>find_bugs_in_landscape\<close> ends normally with the
  count 0 on every landscape; and no part read from a bug file has the pattern \<open>None\<close>,
  the reader leaving out the rows that are empty after stripping.
\<close>

theorem empty_shape_no_error:
  "format_pattern [] = None
   \<and> find_bugs_in_landscape [] landscape = Inr 0
   \<and> None \<notin> part_pattern ` set (read_bug bug)"
proof -
  have "part_pattern p \<noteq> None" if "p \<in> set (read_bug bug)" for p
  proof -
    from that obtain l where l: "l \<in> set (reader bug)" and p: "p = mk_Part l"
      by (auto simp: read_bug_def)
    from l have "line_pattern l \<noteq> []"
      unfolding reader_def by (rule reader_from_nonempty)
    with p show ?thesis
      by (auto simp: mk_Part_def format_pattern_def Let_def split: list.splits)
  qed
  then have "None \<notin> part_pattern ` set (read_bug bug)" by force
  then show ?thesis
    by (simp add: format_pattern_def find_bugs_in_landscape_def lines_loop_empty_shape
        new_BugFinder_def)
qed

text \<open>
  Claim C9, at the input where the code departs from it. The bug file with the rows
  \<open>a\<close>, an empty row and \<open>b\<close> gives two parts with the ids 0 and 2: the id is the
  number of the row in the file, and the empty row is counted although it is left out.
\<close>

theorem blank_row_leaves_gap:
  "map part_id (read_bug [CHR ''a'', CHR 0x0A, CHR 0x0A, CHR ''b'', CHR 0x0A]) = [0, 2]"
  by code_simp

section \<open>The compiled pattern of a row\<close>

lemma digit_cases:
  "(d::nat) < 10 \<Longrightarrow>
   d = 0 \<or> d = 1 \<or> d = 2 \<or> d = 3 \<or> d = 4 \<or> d = 5 \<or> d = 6 \<or> d = 7 \<or> d = 8 \<or> d = 9"
  by presburger

lemma digit_val_digit: "d < 10 \<Longrightarrow> digit_val (''0123456789'' ! d) = Some d"
  by (drule digit_cases) (elim disjE; simp add: digit_val_def)

lemma read_digits_str_nat:
  "read_digits acc (str_nat n @ r) = read_digits (acc * 10 ^ length (str_nat n) + n) r"
proof (induction n arbitrary: acc r rule: str_nat.induct)
  case (1 n)
  show ?case
  proof (cases "n < 10")
    case True
    then show ?thesis
      by (subst (1 2) str_nat.simps) (simp add: digit_val_digit)
  next
    case False
    have m: "n mod 10 < 10" by simp
    have "read_digits acc (str_nat n @ r)
        = read_digits acc (str_nat (n div 10) @ (''0123456789'' ! (n mod 10)) # r)"
      using False by (subst str_nat.simps) simp
    also have "\<dots> = read_digits (acc * 10 ^ length (str_nat (n div 10)) + n div 10)
                        ((''0123456789'' ! (n mod 10)) # r)"
      by (rule "1.IH" [OF False])
    also have "\<dots> = read_digits ((acc * 10 ^ length (str_nat (n div 10)) + n div 10) * 10
                          + n mod 10) r"
      by (simp add: digit_val_digit [OF m])
    also have "(acc * 10 ^ length (str_nat (n div 10)) + n div 10) * 10 + n mod 10
        = acc * 10 ^ length (str_nat n) + n"
      using False by (subst (2) str_nat.simps) (simp add: algebra_simps)
    finally show ?thesis .
  qed
qed

lemma str_nat_head: "\<exists>d ds. str_nat n = d # ds \<and> digit_val d \<noteq> None"
proof (induction n rule: str_nat.induct)
  case (1 n)
  show ?case
  proof (cases "n < 10")
    case True
    then show ?thesis by (subst str_nat.simps) (simp add: digit_val_digit)
  next
    case False
    from "1.IH" [OF False] obtain d ds where "str_nat (n div 10) = d # ds" "digit_val d \<noteq> None"
      by blast
    with False show ?thesis by (subst str_nat.simps) simp
  qed
qed

lemma digit_val_brace [simp]: "digit_val (CHR ''}'') = None"
  by (simp add: digit_val_def)

lemma parse_repeat_braces:
  "parse_repeat (CHR ''{'' # str_nat n @ CHR ''}'' # X) = Some (n, X)"
proof -
  obtain d ds where d: "str_nat n = d # ds" "digit_val d \<noteq> None"
    using str_nat_head by blast
  have "read_digits 0 (str_nat n @ CHR ''}'' # X) = (n, CHR ''}'' # X)"
    by (simp add: read_digits_str_nat)
  with d show ?thesis by (simp add: parse_repeat_def)
qed

lemma parse_repeat_none:
  "X = [] \<or> hd X \<noteq> CHR ''{'' \<Longrightarrow> parse_repeat X = Some (1, X)"
  by (cases X) (auto simp: parse_repeat_def)


lemma escape_Nil [simp]: "escape [] ex = []"
  by (simp add: escape_def)

lemma escape_Cons:
  "escape (c # cs) ex =
     (if c \<in> set (ALPHANUM @ ex) then [c]
      else if c = CHR 0x00 then [backslash, CHR ''0'', CHR ''0'', CHR ''0'']
      else [backslash, c]) @ escape cs ex"
  by (simp add: escape_def)

lemma alnum_not_space: "c \<in> set ALPHANUM \<Longrightarrow> \<not> is_space c"
  by (auto simp: ALPHANUM_def is_space_def)

lemma space_not_alnum: "is_space c \<Longrightarrow> c \<notin> set ALPHANUM"
  using alnum_not_space by blast

lemma is_space_blank [simp]: "is_space (CHR '' '')"
  by (simp add: is_space_def)

lemma not_space_simps [simp]:
  "\<not> is_space backslash" "\<not> is_space (CHR ''0'')" "\<not> is_space (CHR 0x00)"
  by (simp_all add: is_space_def)

lemma escape_blank_Cons: "escape (CHR '' '' # cs) '' '' = CHR '' '' # escape cs '' ''"
  by (simp add: escape_Cons)

lemma escape_space_Cons:
  assumes "is_space c" "c \<noteq> CHR '' ''"
  shows "escape (c # cs) '' '' = backslash # c # escape cs '' ''"
proof -
  from assms(1) have "c \<notin> set ALPHANUM" by (rule space_not_alnum)
  moreover from assms(1) have "c \<noteq> CHR 0x00" by auto
  ultimately show ?thesis using assms(2) by (simp add: escape_Cons)
qed

lemma takeWhile_space_escape:
  "takeWhile is_space (escape cs '' '') = takeWhile is_blank cs"
proof (induction cs)
  case Nil
  then show ?case by simp
next
  case (Cons c cs)
  show ?case
  proof (cases "c = CHR '' ''")
    case True
    with Cons show ?thesis by (simp add: escape_blank_Cons)
  next
    case False
    then show ?thesis by (auto simp: escape_Cons alnum_not_space)
  qed
qed

lemma dropWhile_space_escape:
  "dropWhile is_space (escape cs '' '') = escape (dropWhile is_blank cs) '' ''"
proof (induction cs)
  case Nil
  then show ?case by simp
next
  case (Cons c cs)
  show ?case
  proof (cases "c = CHR '' ''")
    case True
    with Cons show ?thesis by (simp add: escape_blank_Cons)
  next
    case False
    then show ?thesis by (auto simp: escape_Cons alnum_not_space)
  qed
qed

lemma rest_regex_space:
  assumes "is_space c"
  shows "re_sub_spaces format_bug_replace_match_with_regex (c # escape cs '' '')
       = CHR ''.'' # CHR ''{'' # str_nat (1 + length (takeWhile is_blank cs)) @ CHR ''}''
           # rest_regex (dropWhile is_blank cs)"
  using assms
  by (simp add: takeWhile_space_escape dropWhile_space_escape
      format_bug_replace_match_with_regex_def)

lemma rest_regex_no_brace:
  "rest_regex cs @ z = [] \<or> hd (rest_regex cs @ z) \<noteq> CHR ''{''
   \<or> (cs = [] \<and> z \<noteq> [] \<and> hd z = CHR ''{'')"
proof (cases cs)
  case Nil
  then show ?thesis by (cases z) auto
next
  case (Cons c cs')
  show ?thesis
  proof (cases "is_space c")
    case True
    show ?thesis
    proof (cases "c = CHR '' ''")
      case b: True
      with Cons show ?thesis
        by (simp add: escape_blank_Cons rest_regex_space [OF is_space_blank]
            del: re_sub_spaces.simps)
    next
      case False
      with Cons True show ?thesis by (simp add: escape_space_Cons)
    qed
  next
    case False
    with Cons show ?thesis
      by (auto simp: escape_Cons ALPHANUM_def)
  qed
qed


lemma rest_regex_nonspace:
  assumes "\<not> is_space c"
  shows "rest_regex (c # cs) =
     (if c \<in> set ALPHANUM then [c]
      else if c = CHR 0x00 then [backslash, CHR ''0'', CHR ''0'', CHR ''0'']
      else [backslash, c]) @ rest_regex cs"
proof -
  from assms have "c \<noteq> CHR '' ''" by auto
  with assms show ?thesis by (simp add: escape_Cons)
qed

lemma rest_regex_blank:
  "rest_regex (CHR '' '' # cs)
     = CHR ''.'' # CHR ''{'' # str_nat (1 + length (takeWhile is_blank cs)) @ CHR ''}''
         # rest_regex (dropWhile is_blank cs)"
  by (simp only: escape_blank_Cons rest_regex_space [OF is_space_blank])

lemma rest_regex_other_space:
  assumes "is_space c" "c \<noteq> CHR '' ''"
  shows "rest_regex (c # cs)
     = backslash # CHR ''.'' # CHR ''{'' # str_nat (1 + length (takeWhile is_blank cs))
         @ CHR ''}'' # rest_regex (dropWhile is_blank cs)"
proof -
  have "rest_regex (c # cs)
      = backslash # re_sub_spaces format_bug_replace_match_with_regex (c # escape cs '' '')"
    by (simp add: escape_space_Cons [OF assms] del: re_sub_spaces.simps)
       (simp add: re_sub_spaces.simps(2) [of _ backslash])
  then show ?thesis by (simp only: rest_regex_space [OF assms(1)])
qed

lemma parse_items_step:
  assumes "s \<noteq> []" "hd s \<noteq> CHR '')''" "parse_atom s = Some (a, r)"
    "parse_repeat r = Some (n, r')" "parse_items r' = Some (its, r'')"
  shows "parse_items s = Some ((a, n) # its, r'')"
  using assms by (subst parse_items.simps) simp

lemma parse_items_rest:
  "parse_items (rest_regex cs @ '')'') = Some (constraints cs, '')'')"
proof (induction cs rule: constraints.induct)
  case 1
  show ?case by (subst parse_items.simps) simp
next
  case (2 c cs)
  let ?k = "1 + length (takeWhile is_blank cs)"
  let ?X = "rest_regex (dropWhile is_blank cs) @ '')''"
  show ?case
  proof (cases "is_space c")
    case True
    note IH = "2.IH"(1) [OF True]
    have rep: "parse_repeat (CHR ''{'' # str_nat ?k @ CHR ''}'' # ?X) = Some (?k, ?X)"
      by (rule parse_repeat_braces)
    show ?thesis
    proof (cases "c = CHR '' ''")
      case b: True
      have "parse_items (CHR ''.'' # CHR ''{'' # str_nat ?k @ CHR ''}'' # ?X)
          = Some ((AnyChar, ?k) # constraints (dropWhile is_blank cs), '')'')"
        by (rule parse_items_step [OF _ _ _ rep IH]) (simp_all add: parse_atom_def)
      with b show ?thesis by (simp add: rest_regex_blank)
    next
      case False
      have "parse_items (backslash # CHR ''.'' # CHR ''{'' # str_nat ?k @ CHR ''}'' # ?X)
          = Some ((Lit (CHR ''.''), ?k) # constraints (dropWhile is_blank cs), '')'')"
        by (rule parse_items_step [OF _ _ _ rep IH])
           (simp_all add: parse_atom_def ALPHANUM_def)
      with False True show ?thesis by (simp add: rest_regex_other_space)
    qed
  next
    case False
    note IH = "2.IH"(2) [OF False]
    let ?Y = "rest_regex cs @ '')''"
    have rep: "parse_repeat ?Y = Some (1, ?Y)"
    proof (rule parse_repeat_none)
      from rest_regex_no_brace [of cs "'')''"]
      show "?Y = [] \<or> hd ?Y \<noteq> CHR ''{''" by auto
    qed
    have "parse_items (rest_regex (c # cs) @ '')'') = Some ((Lit c, 1) # constraints cs, '')'')"
    proof (cases "c \<in> set ALPHANUM")
      case True
      have "parse_items (c # ?Y) = Some ((Lit c, 1) # constraints cs, '')'')"
        by (rule parse_items_step [OF _ _ _ rep IH])
           (use True in \<open>auto simp: parse_atom_def ALPHANUM_def\<close>)
      with True False show ?thesis by (simp add: rest_regex_nonspace)
    next
      case na: False
      show ?thesis
      proof (cases "c = CHR 0x00")
        case True
        have "parse_items (backslash # CHR ''0'' # CHR ''0'' # CHR ''0'' # ?Y)
            = Some ((Lit (CHR 0x00), 1) # constraints cs, '')'')"
          by (rule parse_items_step [OF _ _ _ rep IH])
             (simp_all add: parse_atom_def ALPHANUM_def)
        with True na False show ?thesis by (simp add: rest_regex_nonspace)
      next
        case nz: False
        have "parse_items (backslash # c # ?Y) = Some ((Lit c, 1) # constraints cs, '')'')"
          by (rule parse_items_step [OF _ _ _ rep IH])
             (use na in \<open>simp_all add: parse_atom_def\<close>)
        with nz na False show ?thesis by (simp add: rest_regex_nonspace)
      qed
    qed
    with False show ?thesis by simp
  qed
qed


lemma format_pattern_Cons:
  "format_pattern (a # rest) = Some (escape [a] [] @ ''(?='' @ rest_regex rest @ '')'')"
  by (simp add: format_pattern_def Let_def)

lemma parse_pieces_lookahead:
  "parse_pieces (''(?='' @ rest_regex rest @ '')'') = Some [Look (constraints rest)]"
proof -
  have "parse_pieces [] = Some []" by (subst parse_pieces.simps) simp
  then show ?thesis
    by (subst parse_pieces.simps) (simp add: parse_items_rest)
qed

lemma parse_pieces_step:
  assumes "s \<noteq> []" "take 3 s \<noteq> ''(?=''" "parse_atom s = Some (a, r)"
    "parse_repeat r = Some (n, r')" "parse_pieces r' = Some ps"
  shows "parse_pieces s = Some (Item a n # ps)"
  using assms by (subst parse_pieces.simps) simp

lemma parse_pieces_compiled:
  "parse_pieces (escape [a] [] @ ''(?='' @ rest_regex rest @ '')'')
     = Some [Item (Lit a) 1, Look (constraints rest)]"
proof -
  let ?L = "''(?='' @ rest_regex rest @ '')''"
  have rep: "parse_repeat ?L = Some (1, ?L)" by (simp add: parse_repeat_def)
  note step = parse_pieces_step [OF _ _ _ rep parse_pieces_lookahead]
  show ?thesis
  proof (cases "a \<in> set ALPHANUM")
    case True
    have "parse_pieces (a # ?L) = Some [Item (Lit a) 1, Look (constraints rest)]"
      by (rule step) (use True in \<open>auto simp: parse_atom_def ALPHANUM_def\<close>)
    with True show ?thesis by (simp add: escape_Cons)
  next
    case na: False
    show ?thesis
    proof (cases "a = CHR 0x00")
      case True
      have "parse_pieces (backslash # CHR ''0'' # CHR ''0'' # CHR ''0'' # ?L)
          = Some [Item (Lit (CHR 0x00)) 1, Look (constraints rest)]"
        by (rule step) (simp_all add: parse_atom_def ALPHANUM_def)
      with True na show ?thesis by (simp add: escape_Cons)
    next
      case False
      have "parse_pieces (backslash # a # ?L) = Some [Item (Lit a) 1, Look (constraints rest)]"
        by (rule step) (use na in \<open>simp_all add: parse_atom_def\<close>)
      with False na show ?thesis by (simp add: escape_Cons)
    qed
  qed
qed

lemma scan_filter:
  assumes one: "\<And>t k. match_pieces ps t = Some k \<Longrightarrow> k = 1"
  shows "scan ps s pos = filter (\<lambda>c. match_pieces ps (drop c s) \<noteq> None) [pos..<Suc (length s)]"
proof (induction "Suc (length s) - pos" arbitrary: pos)
  case 0
  then have "length s < pos" by simp
  then show ?case by (subst scan.simps) simp
next
  case (Suc d)
  then have le: "\<not> length s < pos" and d: "d = Suc (length s) - Suc pos" by simp_all
  have up: "[pos..<Suc (length s)] = pos # [Suc pos..<Suc (length s)]"
    using le by (simp add: upt_rec [of pos])
  note IH = Suc.hyps(1) [OF d]
  show ?case
  proof (cases "match_pieces ps (drop pos s)")
    case None
    with le IH up show ?thesis by (subst scan.simps) simp
  next
    case (Some k)
    with one have "k = 1" by blast
    with Some le IH up show ?thesis by (subst scan.simps) simp
  qed
qed

lemma match_anchor_one:
  "match_pieces [Item a 1, Look its] t = Some k \<Longrightarrow> k = 1"
  by (auto split: if_splits)

lemma match_anchor_Nil: "match_pieces [Item a 1, Look its] [] = None"
  by simp

lemma format_pattern_parses:
  obtains p where "format_pattern (a # rest) = Some p"
    and "parse_pieces p = Some [Item (Lit a) 1, Look (constraints rest)]"
  using format_pattern_Cons parse_pieces_compiled by blast

lemma matches_at_compiled:
  "matches_at (format_pattern (a # rest)) s c
     = (c \<le> length s \<and> match_pieces [Item (Lit a) 1, Look (constraints rest)] (drop c s) \<noteq> None)"
proof -
  obtain p where "format_pattern (a # rest) = Some p"
    and "parse_pieces p = Some [Item (Lit a) 1, Look (constraints rest)]"
    by (rule format_pattern_parses)
  then show ?thesis by (simp add: matches_at_def del: match_pieces.simps)
qed

lemma finditer_compiled:
  "finditer (format_pattern (a # rest)) s
     = Inr (filter (matches_at (format_pattern (a # rest)) s) [0..<length s])"
proof -
  let ?ps = "[Item (Lit a) 1, Look (constraints rest)]"
  obtain p where p: "format_pattern (a # rest) = Some p" "parse_pieces p = Some ?ps"
    by (rule format_pattern_parses)
  have "scan ?ps s 0 = filter (\<lambda>c. match_pieces ?ps (drop c s) \<noteq> None) [0..<Suc (length s)]"
    by (rule scan_filter) (rule match_anchor_one)
  also have "\<dots> = filter (\<lambda>c. match_pieces ?ps (drop c s) \<noteq> None) [0..<length s]"
    by simp
  also have "\<dots> = filter (matches_at (format_pattern (a # rest)) s) [0..<length s]"
    by (rule filter_cong) (auto simp: matches_at_compiled simp del: match_pieces.simps)
  finally have "scan ?ps s 0 = filter (matches_at (format_pattern (a # rest)) s) [0..<length s]" .
  moreover have "finditer (format_pattern (a # rest)) s = Inr (scan ?ps s 0)"
    by (simp add: finditer_def p)
  ultimately show ?thesis by simp
qed


lemma match_items_lits:
  "match_items (map (\<lambda>x. (Lit x, Suc 0)) l) t
     = (if length l \<le> length t \<and> take (length l) t = l then Some (length l) else None)"
proof (induction l arbitrary: t)
  case Nil
  then show ?case by simp
next
  case (Cons x l)
  show ?case
  proof (cases t)
    case Nil
    then show ?thesis by simp
  next
    case (Cons y t')
    with Cons.IH [of t'] show ?thesis by auto
  qed
qed

lemma match_items_append:
  "match_items (xs @ ys) t
     = (case match_items xs t of
          None \<Rightarrow> None
        | Some k \<Rightarrow> map_option (\<lambda>j. k + j) (match_items ys (drop k t)))"
proof (induction xs arbitrary: t)
  case Nil
  show ?case by (cases "match_items ys t") simp_all
next
  case (Cons x xs)
  obtain a n where x: "x = (a, n)" by (cases x)
  show ?case
  proof (cases "n \<le> length t \<and> list_all (atom_ok a) (take n t)")
    case False
    then show ?thesis by (auto simp: x)
  next
    case True
    show ?thesis
    proof (cases "match_items xs (drop n t)")
      case None
      with True show ?thesis by (simp add: x Cons.IH)
    next
      case (Some k)
      with True show ?thesis
        by (cases "match_items ys (drop k (drop n t))")
           (simp_all add: x Cons.IH add.commute)
    qed
  qed
qed

lemma constraints_lits:
  "\<forall>x \<in> set pre. \<not> is_space x \<Longrightarrow>
   constraints (pre @ r) = map (\<lambda>x. (Lit x, Suc 0)) pre @ constraints r"
  by (induction pre) simp_all

lemma takeWhile_blanks:
  assumes "r = [] \<or> hd r \<noteq> CHR '' ''"
  shows "takeWhile is_blank (replicate m (CHR '' '') @ r) = replicate m (CHR '' '')"
proof -
  have "takeWhile is_blank r = []" using assms by (cases r) auto
  then show ?thesis by (induction m) simp_all
qed

lemma dropWhile_blanks:
  assumes "r = [] \<or> hd r \<noteq> CHR '' ''"
  shows "dropWhile is_blank (replicate m (CHR '' '') @ r) = r"
proof -
  have "dropWhile is_blank r = r" using assms by (cases r) auto
  then show ?thesis by (induction m) simp_all
qed

lemma constraints_blanks:
  assumes "0 < n" "r = [] \<or> hd r \<noteq> CHR '' ''"
  shows "constraints (replicate n (CHR '' '') @ r) = (AnyChar, n) # constraints r"
proof -
  from assms(1) obtain m where n: "n = Suc m" by (cases n) auto
  show ?thesis
    by (simp add: n takeWhile_blanks [OF assms(2)] dropWhile_blanks [OF assms(2)])
qed

lemma match_look_anchor:
  "(match_pieces [Item (Lit a) (Suc 0), Look its] t \<noteq> None)
     = (t \<noteq> [] \<and> hd t = a \<and> match_items its (tl t) \<noteq> None)"
  by (cases t) (auto simp: drop_Suc)

lemma matches_at_row:
  "matches_at (format_pattern (a # rest)) s c
     = (c < length s \<and> s ! c = a \<and> match_items (constraints rest) (drop (Suc c) s) \<noteq> None)"
proof (cases "c < length s")
  case True
  then have "drop c s \<noteq> []" "hd (drop c s) = s ! c" "tl (drop c s) = drop (Suc c) s"
    by (simp_all add: hd_drop_conv_nth drop_Suc tl_drop)
  with True show ?thesis
    by (simp add: matches_at_compiled match_look_anchor del: match_pieces.simps not_None_eq)
next
  case False
  then have "drop c s = []" by simp
  with False show ?thesis
    by (simp add: matches_at_compiled match_look_anchor del: match_pieces.simps not_None_eq)
qed

lemma literal_row_matches:
  assumes "\<forall>x \<in> set rest. \<not> is_space x"
  shows "matches_at (format_pattern (a # rest)) s c
       = (c + length (a # rest) \<le> length s \<and> take (length (a # rest)) (drop c s) = a # rest)"
proof -
  have cr: "constraints rest = map (\<lambda>x. (Lit x, Suc 0)) rest"
    using constraints_lits [OF assms, of "[]"] by simp
  show ?thesis
  proof (cases "c < length s")
    case True
    then have d: "drop c s = s ! c # drop (Suc c) s" by (simp add: Cons_nth_drop_Suc)
    from True show ?thesis
      by (auto simp: matches_at_row cr match_items_lits d)
  next
    case False
    then show ?thesis by (simp add: matches_at_row)
  qed
qed


text \<open>
  Claim C6. For every row that is not empty and every target string, \<open>re.finditer\<close>
  with the compiled row yields the columns at which the row matches, all of them and only
  them, in ascending order. Candidates that overlap are all reported, the match itself being
  one character long: the row \<open>aa\<close> is found at the columns 0, 1 and 2 of \<open>aaaa\<close>.
\<close>

theorem finditer_enumerates_columns:
  "finditer (format_pattern (a # rest)) target
     = Inr (filter (matches_at (format_pattern (a # rest)) target) [0..<length target])
   \<and> set (filter (matches_at (format_pattern (a # rest)) target) [0..<length target])
       = {c. matches_at (format_pattern (a # rest)) target c}
   \<and> sorted_wrt (<) (filter (matches_at (format_pattern (a # rest)) target) [0..<length target])
   \<and> finditer (format_pattern ''aa'') ''aaaa'' = Inr [0, 1, 2]"
proof -
  have "finditer (format_pattern ''aa'') ''aaaa'' = Inr [0, 1, 2]" by code_simp
  moreover have "set (filter (matches_at (format_pattern (a # rest)) target) [0..<length target])
      = {c. matches_at (format_pattern (a # rest)) target c}"
    by (auto simp: matches_at_row)
  moreover have
    "sorted_wrt (<) (filter (matches_at (format_pattern (a # rest)) target) [0..<length target])"
    by (rule sorted_wrt_filter) (simp del: upt.simps)
  ultimately show ?thesis using finditer_compiled by blast
qed

text \<open>
  Claim C5, at an input where the code departs from it. The row \<open>a<TAB>b\<close> has no
  space in it. Its tab is escaped and then, being whitespace, replaced behind its backslash:
  the pattern is \<open>a(?=\.{1}b)\<close>. The row does not match the identical target at
  column 0, and it matches \<open>a.b\<close>; it does not match \<open>aXb\<close>, so the tab is
  no skip either. The same holds with a carriage return for the tab. For rows without
  whitespace the claim holds (lemma \<open>literal_row_matches\<close>).
\<close>

theorem escaped_whitespace_not_literal:
  "format_pattern [CHR ''a'', CHR 0x09, CHR ''b'']
     = Some [CHR ''a'', CHR ''('', CHR ''?'', CHR ''='', backslash, CHR ''.'', CHR ''{'',
             CHR ''1'', CHR ''}'', CHR ''b'', CHR '')'']
   \<and> \<not> matches_at (format_pattern [CHR ''a'', CHR 0x09, CHR ''b''])
         [CHR ''a'', CHR 0x09, CHR ''b''] 0
   \<and> matches_at (format_pattern [CHR ''a'', CHR 0x09, CHR ''b'']) ''a.b'' 0
   \<and> \<not> matches_at (format_pattern [CHR ''a'', CHR 0x09, CHR ''b'']) ''aXb'' 0
   \<and> \<not> matches_at (format_pattern [CHR ''a'', CHR 0x0D, CHR ''b''])
         [CHR ''a'', CHR 0x0D, CHR ''b''] 0
   \<and> matches_at (format_pattern [CHR ''a'', CHR 0x0D, CHR ''b'']) ''a.b'' 0"
  by code_simp

lemma list_all_any_char:
  "CHR 0x0A \<notin> set u \<Longrightarrow> list_all (atom_ok AnyChar) (take n u)"
  by (auto simp: list_all_iff dest: in_set_takeD)

lemma match_items_skip:
  assumes "CHR 0x0A \<notin> set t"
  shows "(match_items (map (\<lambda>x. (Lit x, Suc 0)) pre @ (AnyChar, n) # map (\<lambda>x. (Lit x, Suc 0)) post) t
            \<noteq> None)
       = (length pre + n + length post \<le> length t
          \<and> take (length pre) t = pre
          \<and> take (length post) (drop (length pre + n) t) = post)"
proof -
  have u: "CHR 0x0A \<notin> set (drop (length pre) t)"
    using assms by (auto dest: in_set_dropD)
  show ?thesis
    by (auto simp: match_items_append match_items_lits list_all_any_char [OF u] add.commute)
qed














section \<open>Fields shorter than the shape\<close>

lemma belongs_positions:
  assumes "bug_part_match_belongs_to_a_bug shape t p line pos = Inr (b, t2)"
  shows "positions t2 l r = positions t l r"
  using assms belongs_loop_result
  by (auto simp: bug_part_match_belongs_to_a_bug_def split: if_splits)

lemma chain_lines:
  "chain_present t ps ln pos \<Longrightarrow> j < length ps \<Longrightarrow> ln - int j \<in> lines_of t"
proof (induction ps arbitrary: ln j)
  case Nil
  then show ?case by simp
next
  case (Cons p ps)
  show ?case
  proof (cases j)
    case 0
    from Cons.prems have "positions t ln (part_id p) \<noteq> []" by auto
    with 0 show ?thesis unfolding lines_of_def by auto
  next
    case (Suc i)
    with Cons.prems have "ln - 1 - int i \<in> lines_of t" by (intro Cons.IH) auto
    with Suc show ?thesis by (simp add: algebra_simps)
  qed
qed

lemma chain_too_long:
  assumes "chain_present t ps ln pos" "finite A" "lines_of t \<subseteq> A"
  shows "length ps \<le> card A"
proof -
  have "(\<lambda>j. ln - int j) ` {..<length ps} \<subseteq> A"
    using chain_lines [OF assms(1)] assms(3) by auto
  then have "card ((\<lambda>j. ln - int j) ` {..<length ps}) \<le> card A"
    using assms(2) by (rule card_mono [rotated])
  moreover have "inj_on (\<lambda>j. ln - int j) {..<length ps}"
    by (auto simp: inj_on_def)
  ultimately show ?thesis by (simp add: card_image)
qed

lemma lines_of_register:
  "lines_of (register_bug_part_match t p line pos) \<subseteq> insert (line_id line) (lines_of t)"
  by (auto simp: lines_of_def register_bug_part_match_def positions_upd split: if_splits)

lemma lines_of_cong:
  "(\<And>l r. positions t' l r = positions t l r) \<Longrightarrow> lines_of t' = lines_of t"
  by (simp add: lines_of_def)

lemma find_loop_short:
  assumes "shape \<noteq> []" "finite A" "card A < length shape" "line_id line \<in> A"
    and "lines_of (bug_part_matches s) \<subseteq> A"
  shows "\<exists>s'. find_loop shape s p line cols = Inr s' \<and> bug_count s' = bug_count s
           \<and> lines_of (bug_part_matches s') \<subseteq> A"
  using assms(5)
proof (induction cols arbitrary: s)
  case Nil
  then show ?case by simp
next
  case (Cons pos cols)
  let ?t1 = "register_bug_part_match (bug_part_matches s) p line pos"
  from assms(1) obtain b t2 where
    bel: "bug_part_match_belongs_to_a_bug shape ?t1 p line pos = Inr (b, t2)"
    by (auto simp: bug_part_match_belongs_to_a_bug_def split: if_splits)
       (metis surj_pair)
  have "lines_of t2 = lines_of ?t1"
    by (rule lines_of_cong) (rule belongs_positions [OF bel])
  with lines_of_register [of "bug_part_matches s" p line pos] Cons.prems assms(4)
  have l2: "lines_of t2 \<subseteq> A" by auto
  have nb: "\<not> b"
  proof
    assume b
    with bel have "chain_present t2 (rev shape) (line_id line) pos"
      by (simp add: belongs_gives_chain)
    from chain_too_long [OF this assms(2) l2] assms(3) show False by simp
  qed
  from l2 have "lines_of (bug_part_matches (s\<lparr>bug_part_matches := t2\<rparr>)) \<subseteq> A" by simp
  from Cons.IH [OF this] bel nb show ?case by simp
qed

lemma parts_loop_short:
  assumes "shape \<noteq> []" "finite A" "card A < length shape" "line_id line \<in> A"
    and "compiled ps" "lines_of (bug_part_matches s) \<subseteq> A"
  shows "\<exists>s'. parts_loop shape s line ps = Inr s' \<and> bug_count s' = bug_count s
           \<and> lines_of (bug_part_matches s') \<subseteq> A"
  using assms(5,6)
proof (induction ps arbitrary: s)
  case Nil
  then show ?case by simp
next
  case (Cons p ps)
  from Cons.prems(1) have cp: "compiled ps"
    and "\<exists>a rest. part_pattern p = format_pattern (a # rest)"
    by (auto simp: compiled_def)
  then obtain cols where fi: "finditer (part_pattern p) (line_pattern line) = Inr cols"
    by (auto simp: finditer_compiled)
  from find_loop_short [OF assms(1-4) Cons.prems(2), of p cols] obtain s1 where
    s1: "find_loop shape s p line cols = Inr s1" "bug_count s1 = bug_count s"
      "lines_of (bug_part_matches s1) \<subseteq> A" by blast
  from Cons.IH [OF cp s1(3)] Cons.IH [OF cp Cons.prems(2)] s1 fi show ?case
    by (auto simp: find_bug_part_and_bugs_in_landscape_line_def)
qed

lemma lines_loop_short:
  assumes "shape \<noteq> []" "finite A" "card A < length shape" "compiled shape"
    and "\<forall>l \<in> set ls. line_id l \<in> A" "lines_of (bug_part_matches s) \<subseteq> A"
  shows "\<exists>s'. lines_loop shape s ls = Inr s' \<and> bug_count s' = bug_count s"
  using assms(5,6)
proof (induction ls arbitrary: s)
  case Nil
  then show ?case by simp
next
  case (Cons l ls)
  from Cons.prems(1) have la: "line_id l \<in> A" and rest: "\<forall>l \<in> set ls. line_id l \<in> A" by auto
  from parts_loop_short [OF assms(1-3) la assms(4) Cons.prems(2)] obtain s1 where
    s1: "parts_loop shape s l shape = Inr s1" "bug_count s1 = bug_count s"
      "lines_of (bug_part_matches s1) \<subseteq> A" by blast
  from Cons.IH [OF rest s1(3)] s1 show ?case by auto
qed

lemma compiled_read_bug: "compiled (read_bug bug)"
proof -
  have "\<exists>a rest. part_pattern p = format_pattern (a # rest)" if "p \<in> set (read_bug bug)" for p
  proof -
    from that obtain l where l: "l \<in> set (reader bug)" and p: "p = mk_Part l"
      by (auto simp: read_bug_def)
    from l have "line_pattern l \<noteq> []"
      unfolding reader_def by (rule reader_from_nonempty)
    then obtain a rest where "line_pattern l = a # rest" by (cases "line_pattern l") auto
    with p show ?thesis by (auto simp: mk_Part_def)
  qed
  then show ?thesis by (simp add: compiled_def)
qed

text \<open>
  Claim C8. When the landscape has fewer lines that are not blank than the bug has rows,
  \<open>find_bugs_in_landscape\<close> ends normally and the count is 0.
\<close>

theorem short_field_counts_zero:
  assumes "length (reader landscape) < length (read_bug bug)"
  shows "bug_finder_main bug landscape = Inr 0"
proof -
  let ?A = "line_id ` set (reader landscape)"
  have "card ?A \<le> length (reader landscape)"
    by (rule order_trans [OF card_image_le card_length]) simp
  with assms have c: "card ?A < length (read_bug bug)" by simp
  from assms have ne: "read_bug bug \<noteq> []" by auto
  have "lines_of (bug_part_matches new_BugFinder) \<subseteq> ?A"
    by (simp add: lines_of_def new_BugFinder_def positions_def)
  from lines_loop_short [OF ne _ c compiled_read_bug _ this, of "reader landscape"]
  obtain s' where "lines_loop (read_bug bug) new_BugFinder (reader landscape) = Inr s'"
    "bug_count s' = bug_count new_BugFinder" by auto
  then show ?thesis
    by (simp add: bug_finder_main_def find_bugs_in_landscape_def new_BugFinder_def)
qed

theorem short_field_counts_zero_witness:
  "bug_finder_main [CHR ''a'', CHR 0x0A, CHR ''b''] ''a'' = Inr 0"
proof -
  have "length (reader ''a'') < length (read_bug [CHR ''a'', CHR 0x0A, CHR ''b''])"
    by code_simp
  then show ?thesis by (rule short_field_counts_zero)
qed

section \<open>Retiring a counted bug\<close>

lemma table_distinct_upd:
  "table_distinct t \<Longrightarrow> distinct xs \<Longrightarrow> table_distinct (t((l, r) \<mapsto> xs))"
  by (simp add: table_distinct_def positions_upd)

lemma deregister_loop_exact:
  assumes "deregister_loop t ps ln c = Inr t'" "table_distinct t"
  shows "table_distinct t' \<and>
         (\<forall>l r c'. (c' \<in> set (positions t' l r))
            = (c' \<in> set (positions t l r)
               \<and> \<not> (c' = c \<and> (\<exists>j<length ps. l = ln - int j \<and> r = part_id (ps ! j)))))"
  using assms
proof (induction ps arbitrary: t ln)
  case Nil
  then show ?case by simp
next
  case (Cons p ps)
  let ?xs = "positions t ln (part_id p)"
  define t1 where "t1 = t((ln, part_id p) \<mapsto> remove1 c ?xs)"
  from Cons.prems(1) have run: "deregister_loop t1 ps (ln - 1) c = Inr t'"
    unfolding t1_def by (simp del: fun_upd_apply split: if_splits)
  from Cons.prems(2) have dx: "distinct ?xs" by (simp add: table_distinct_def)
  then have d1: "table_distinct t1"
    unfolding t1_def using Cons.prems(2) by (intro table_distinct_upd) simp_all
  note IH0 = Cons.IH [OF run d1]
  from IH0 have td: "table_distinct t'" by (rule conjunct1)
  from IH0 have IH: "(c' \<in> set (positions t' l r))
            = (c' \<in> set (positions t1 l r)
               \<and> \<not> (c' = c \<and> (\<exists>j<length ps. l = ln - 1 - int j \<and> r = part_id (ps ! j))))"
    for l r c' by blast
  have "(c' \<in> set (positions t' l r))
            = (c' \<in> set (positions t l r)
               \<and> \<not> (c' = c \<and> (\<exists>j<length (p # ps). l = ln - int j \<and> r = part_id ((p # ps) ! j))))"
    for l r c'
  proof -
    have ex: "(\<exists>j<length (p # ps). l = ln - int j \<and> r = part_id ((p # ps) ! j))
        = ((l = ln \<and> r = part_id p) \<or> (\<exists>j<length ps. l = ln - 1 - int j \<and> r = part_id (ps ! j)))"
      (is "?A = (?B \<or> ?C)")
    proof
      assume ?A
      then obtain j where j: "j < length (p # ps)" "l = ln - int j" "r = part_id ((p # ps) ! j)"
        by blast
      show "?B \<or> ?C"
      proof (cases j)
        case 0
        with j show ?thesis by simp
      next
        case (Suc i)
        with j have "i < length ps" "l = ln - 1 - int i" "r = part_id (ps ! i)" by simp_all
        then show ?thesis by blast
      qed
    next
      assume "?B \<or> ?C"
      then show ?A
      proof
        assume ?B
        then have "0 < length (p # ps) \<and> l = ln - int 0 \<and> r = part_id ((p # ps) ! 0)" by simp
        then show ?A by blast
      next
        assume ?C
        then obtain i where "i < length ps" "l = ln - 1 - int i" "r = part_id (ps ! i)" by blast
        then have "Suc i < length (p # ps) \<and> l = ln - int (Suc i) \<and> r = part_id ((p # ps) ! Suc i)"
          by simp
        then show ?A by blast
      qed
    qed
    have mem: "(c' \<in> set (positions t1 l r))
        = (c' \<in> set (positions t l r) \<and> \<not> (c' = c \<and> l = ln \<and> r = part_id p))"
      unfolding t1_def using dx by (auto simp: positions_upd)
    show ?thesis unfolding ex IH mem by blast
  qed
  with td show ?case by blast
qed

lemma deregister_bug_match_exact:
  assumes "deregister_bug_match shape t line c = Inr t'" "table_distinct t"
  shows "(c' \<in> set (positions t' l r))
       = (c' \<in> set (positions t l r)
          \<and> \<not> (c' = c \<and> (\<exists>k<length shape. l = line_id line - int k
                              \<and> r = part_id (shape ! (length shape - 1 - k)))))"
proof -
  have ex: "(\<exists>j<length (rev shape). l = line_id line - int j \<and> r = part_id (rev shape ! j))
      = (\<exists>k<length shape. l = line_id line - int k \<and> r = part_id (shape ! (length shape - 1 - k)))"
    by (auto simp: rev_nth)
  from deregister_loop_exact [OF assms [unfolded deregister_bug_match_def]]
  have "(c' \<in> set (positions t' l r))
       = (c' \<in> set (positions t l r)
          \<and> \<not> (c' = c \<and> (\<exists>j<length (rev shape). l = line_id line - int j
                              \<and> r = part_id (rev shape ! j))))"
    by blast
  then show ?thesis unfolding ex .
qed


lemma cells_cong:
  "(\<And>l. positions t' l r = positions t l r) \<Longrightarrow> cells t' r ls = cells t r ls"
  by (simp add: cells_def)

lemma cells_upd_other:
  "r' \<noteq> r \<or> l \<notin> line_id ` set ls \<Longrightarrow> cells (t((l, r') \<mapsto> xs)) r ls = cells t r ls"
  unfolding cells_def by (rule arg_cong [where f = sum_list], rule map_cong)
    (auto simp: positions_upd)

lemma cells_Cons:
  "cells t r (l # ls) = length (positions t (line_id l) r) + cells t r ls"
  by (simp add: cells_def)

lemma cells_upd_same:
  "distinct (map line_id ls) \<Longrightarrow> l0 \<in> set ls \<Longrightarrow>
   cells (t((line_id l0, r) \<mapsto> xs)) r ls + length (positions t (line_id l0) r)
     = cells t r ls + length xs"
proof (induction ls)
  case Nil
  then show ?case by simp
next
  case (Cons l ls)
  let ?t' = "t((line_id l0, r) \<mapsto> xs)"
  show ?case
  proof (cases "line_id l = line_id l0")
    case True
    with Cons.prems have "line_id l0 \<notin> line_id ` set ls" by auto
    then have "cells ?t' r ls = cells t r ls"
      by (simp add: cells_upd_other)
    moreover have "positions ?t' (line_id l) r = xs"
      using True by (simp add: positions_upd)
    ultimately show ?thesis using True by (simp only: cells_Cons)
  next
    case False
    with Cons.prems have "l0 \<in> set ls" "distinct (map line_id ls)" by auto
    from Cons.IH [OF this(2,1)]
    have "cells ?t' r ls + length (positions t (line_id l0) r) = cells t r ls + length xs" .
    moreover have "positions ?t' (line_id l) r = positions t (line_id l) r"
      using False by (simp add: positions_upd)
    ultimately show ?thesis by (simp only: cells_Cons)
  qed
qed

lemma lines_of_upd_remove:
  "lines_of (t((l, r) \<mapsto> remove1 c (positions t l r))) \<subseteq> lines_of t"
  by (auto simp: lines_of_def positions_upd split: if_splits)

lemma deregister_loop_cells:
  assumes "distinct (map line_id ls)" "lines_of t \<subseteq> line_id ` set ls"
    and "deregister_loop t ps ln c = Inr t'"
  shows "lines_of t' \<subseteq> line_id ` set ls \<and> cells t' r ls \<le> cells t r ls
       \<and> (r \<in> part_id ` set ps \<longrightarrow> cells t' r ls < cells t r ls)"
  using assms(2,3)
proof (induction ps arbitrary: t ln)
  case Nil
  then show ?case by simp
next
  case (Cons p ps)
  let ?xs = "positions t ln (part_id p)"
  define t1 where "t1 = t((ln, part_id p) \<mapsto> remove1 c ?xs)"
  from Cons.prems(2) have mem: "c \<in> set ?xs"
    and run: "deregister_loop t1 ps (ln - 1) c = Inr t'"
    unfolding t1_def by (simp_all del: fun_upd_apply split: if_splits)
  from mem have "?xs \<noteq> []" by auto
  then have "ln \<in> lines_of t" unfolding lines_of_def by blast
  with Cons.prems(1) obtain l0 where l0: "l0 \<in> set ls" "line_id l0 = ln" by auto
  have l1: "lines_of t1 \<subseteq> line_id ` set ls"
    unfolding t1_def using lines_of_upd_remove Cons.prems(1) by blast
  have len: "length (remove1 c ?xs) + 1 = length ?xs"
    using mem by (simp add: length_remove1) (cases ?xs; simp)
  have step: "cells t1 r ls \<le> cells t r ls \<and> (r = part_id p \<longrightarrow> cells t1 r ls < cells t r ls)"
  proof (cases "r = part_id p")
    case True
    from cells_upd_same [OF assms(1) l0(1), of t r "remove1 c ?xs"] len True l0(2)
    show ?thesis unfolding t1_def by simp
  next
    case False
    then show ?thesis unfolding t1_def by (simp add: cells_upd_other)
  qed
  from Cons.IH [OF l1 run] step show ?case by auto
qed


lemma register_cells:
  assumes "distinct (map line_id ls)" "line \<in> set ls"
  shows "cells (register_bug_part_match t p line c) r ls
       = cells t r ls + (if part_id p = r then 1 else 0)"
proof (cases "part_id p = r")
  case True
  from cells_upd_same [OF assms, of t r "positions t (line_id line) r @ [c]"] True
  show ?thesis by (simp add: register_bug_part_match_def)
next
  case False
  then show ?thesis by (simp add: register_bug_part_match_def cells_upd_other)
qed

lemma find_loop_cells:
  assumes "distinct (map line_id ls)" "line \<in> set ls" "r \<in> part_id ` set shape"
    and "lines_of (bug_part_matches s) \<subseteq> line_id ` set ls"
    and "find_loop shape s p line cols = Inr s'"
  shows "lines_of (bug_part_matches s') \<subseteq> line_id ` set ls
       \<and> bug_count s' + cells (bug_part_matches s') r ls
           \<le> bug_count s + cells (bug_part_matches s) r ls
               + (if part_id p = r then length cols else 0)"
  using assms(4,5)
proof (induction cols arbitrary: s)
  case Nil
  then show ?case by simp
next
  case (Cons c cols)
  let ?t = "bug_part_matches s"
  let ?t1 = "register_bug_part_match ?t p line c"
  from Cons.prems(2) obtain b t2 where
    bel: "bug_part_match_belongs_to_a_bug shape ?t1 p line c = Inr (b, t2)"
    by (auto simp: Let_def split: sum.splits)
  have l1: "lines_of ?t1 \<subseteq> line_id ` set ls"
    using lines_of_register [of ?t p line c] Cons.prems(1) assms(2) by auto
  have same: "\<And>l r. positions t2 l r = positions ?t1 l r"
    by (rule belongs_positions [OF bel])
  have l2: "lines_of t2 \<subseteq> line_id ` set ls"
    using l1 lines_of_cong [of t2 ?t1] same by simp
  have c2: "cells t2 r ls = cells ?t r ls + (if part_id p = r then 1 else 0)"
    using register_cells [OF assms(1,2), of ?t p c r] cells_cong [of t2 r ?t1 ls] same
    by simp
  show ?case
  proof (cases b)
    case True
    with Cons.prems(2) bel obtain t3 where
      de: "deregister_bug_match shape t2 line c = Inr t3"
      and fl: "find_loop shape ((increment_bug_count s)\<lparr>bug_part_matches := t3\<rparr>) p line cols
                 = Inr s'"
      by (auto simp: Let_def split: sum.splits)
    from assms(3) have "r \<in> part_id ` set (rev shape)" by simp
    with deregister_loop_cells [OF assms(1) l2 de [unfolded deregister_bug_match_def], of r]
    have l3: "lines_of t3 \<subseteq> line_id ` set ls" and c3: "cells t3 r ls < cells t2 r ls"
      by auto
    from l3 have "lines_of (bug_part_matches ((increment_bug_count s)\<lparr>bug_part_matches := t3\<rparr>))
        \<subseteq> line_id ` set ls" by simp
    from Cons.IH [OF this fl] c3 c2 show ?thesis
      by (auto simp: increment_bug_count_def split: if_splits)
  next
    case False
    with Cons.prems(2) bel have
      fl: "find_loop shape (s\<lparr>bug_part_matches := t2\<rparr>) p line cols = Inr s'"
      by (simp add: Let_def)
    from l2 have "lines_of (bug_part_matches (s\<lparr>bug_part_matches := t2\<rparr>)) \<subseteq> line_id ` set ls"
      by simp
    from Cons.IH [OF this fl] c2 show ?thesis by (auto split: if_splits)
  qed
qed

lemma parts_loop_cells:
  assumes "distinct (map line_id ls)" "line \<in> set ls" "r \<in> part_id ` set shape"
    and "lines_of (bug_part_matches s) \<subseteq> line_id ` set ls"
    and "parts_loop shape s line ps = Inr s'"
  shows "lines_of (bug_part_matches s') \<subseteq> line_id ` set ls
       \<and> bug_count s' + cells (bug_part_matches s') r ls
           \<le> bug_count s + cells (bug_part_matches s) r ls
               + sum_list (map (\<lambda>q. if part_id q = r then ncols q line else 0) ps)"
  using assms(4,5)
proof (induction ps arbitrary: s)
  case Nil
  then show ?case by simp
next
  case (Cons p ps)
  show ?case
  proof (cases "should_skip_bug_part_in_line (bug_part_matches s) p line")
    case True
    with Cons.prems(2) have "parts_loop shape s line ps = Inr s'" by simp
    from Cons.IH [OF Cons.prems(1) this] show ?thesis by auto
  next
    case False
    with Cons.prems(2) obtain s1 cols where
      fi: "finditer (part_pattern p) (line_pattern line) = Inr cols"
      and fl: "find_loop shape s p line cols = Inr s1"
      by (auto simp: find_bug_part_and_bugs_in_landscape_line_def split: sum.splits)
    from fi have nc: "ncols p line = length cols" by (simp add: ncols_def)
    from find_loop_cells [OF assms(1-3) Cons.prems(1) fl]
    have l1: "lines_of (bug_part_matches s1) \<subseteq> line_id ` set ls"
      and b1: "bug_count s1 + cells (bug_part_matches s1) r ls
           \<le> bug_count s + cells (bug_part_matches s) r ls
               + (if part_id p = r then length cols else 0)" by auto
    show ?thesis
    proof (cases "should_skip_all_bug_parts_in_line (bug_part_matches s1) p line")
      case True
      with False fi fl Cons.prems(2) have "s' = s1"
        by (simp add: find_bug_part_and_bugs_in_landscape_line_def)
      with l1 b1 nc show ?thesis by (auto split: if_splits)
    next
      case nb: False
      with False fi fl Cons.prems(2) have "parts_loop shape s1 line ps = Inr s'"
        by (simp add: find_bug_part_and_bugs_in_landscape_line_def)
      from Cons.IH [OF l1 this] b1 nc show ?thesis by (auto split: if_splits)
    qed
  qed
qed

lemma lines_loop_cells:
  assumes "distinct (map line_id ls)" "r \<in> part_id ` set shape"
    and "set ls' \<subseteq> set ls"
    and "lines_of (bug_part_matches s) \<subseteq> line_id ` set ls"
    and "lines_loop shape s ls' = Inr s'"
  shows "bug_count s' + cells (bug_part_matches s') r ls
           \<le> bug_count s + cells (bug_part_matches s) r ls + matched_cells shape r ls'"
  using assms(3,4,5)
proof (induction ls' arbitrary: s)
  case Nil
  then show ?case by (simp add: matched_cells_def)
next
  case (Cons l ls')
  from Cons.prems(1) have l: "l \<in> set ls" and sub: "set ls' \<subseteq> set ls" by auto
  from Cons.prems(3) obtain s1 where p: "parts_loop shape s l shape = Inr s1"
    and r: "lines_loop shape s1 ls' = Inr s'"
    by (auto split: sum.splits)
  from parts_loop_cells [OF assms(1) l assms(2) Cons.prems(2) p]
  have l1: "lines_of (bug_part_matches s1) \<subseteq> line_id ` set ls"
    and b1: "bug_count s1 + cells (bug_part_matches s1) r ls
           \<le> bug_count s + cells (bug_part_matches s) r ls
               + sum_list (map (\<lambda>q. if part_id q = r then ncols q l else 0) shape)" by auto
  from Cons.IH [OF sub l1 r] b1 show ?case by (simp add: matched_cells_def)
qed

lemma reader_from_ids:
  "sorted_wrt (<) (map line_id (reader_from i xs)) \<and> (\<forall>l \<in> set (reader_from i xs). i \<le> line_id l)"
proof (induction xs arbitrary: i)
  case Nil
  then show ?case by simp
next
  case (Cons x xs)
  from Cons.IH [of "i + 1"] show ?case by (auto simp: Let_def)
qed

lemma reader_distinct: "distinct (map line_id (reader content))"
  using reader_from_ids [of 0 "file_lines content"]
  by (simp add: reader_def strict_sorted_iff)

lemma count_bounded_by_cells:
  assumes "find_bugs_in_landscape shape landscape = Inr n" "p \<in> set shape"
  shows "n \<le> matched_cells shape (part_id p) (reader landscape)"
proof -
  from assms(1) obtain s' where
    run: "lines_loop shape new_BugFinder (reader landscape) = Inr s'" and n: "n = bug_count s'"
    by (cases "lines_loop shape new_BugFinder (reader landscape)")
       (auto simp: find_bugs_in_landscape_def)
  have e: "lines_of (bug_part_matches new_BugFinder) \<subseteq> line_id ` set (reader landscape)"
    by (simp add: lines_of_def new_BugFinder_def positions_def)
  have z: "cells (bug_part_matches new_BugFinder) (part_id p) (reader landscape) = 0"
    by (simp add: cells_def new_BugFinder_def positions_def)
  from assms(2) have "part_id p \<in> part_id ` set shape" by simp
  from lines_loop_cells [OF reader_distinct this subset_refl e run] z n
  show ?thesis by (simp add: new_BugFinder_def)
qed


lemma scan_sorted:
  "sorted_wrt (<) (scan ps s pos) \<and> (\<forall>c \<in> set (scan ps s pos). pos \<le> c)"
proof (induction ps s pos rule: scan.induct)
  case (1 ps s pos)
  show ?case
  proof (cases "length s < pos")
    case True
    then show ?thesis by (subst (1 2) scan.simps) simp
  next
    case le: False
    show ?thesis
    proof (cases "match_pieces ps (drop pos s)")
      case None
      from "1.IH"(1) [OF le None] None le show ?thesis
        by (subst (1 2) scan.simps) auto
    next
      case (Some k)
      from "1.IH"(2) [OF le Some] Some le show ?thesis
        by (subst (1 2) scan.simps) auto
    qed
  qed
qed

lemma finditer_distinct: "finditer pat s = Inr cols \<Longrightarrow> distinct cols"
  using scan_sorted [of _ s 0]
  by (auto simp: finditer_def strict_sorted_iff split: option.splits)

lemma table_distinct_cong:
  "(\<And>l r. positions t' l r = positions t l r) \<Longrightarrow> table_distinct t' = table_distinct t"
  by (simp add: table_distinct_def)

lemma find_loop_distinct:
  assumes "table_distinct (bug_part_matches s)"
    and "distinct (positions (bug_part_matches s) (line_id line) (part_id p) @ cols)"
    and "find_loop shape s p line cols = Inr s'"
  shows "table_distinct (bug_part_matches s')
       \<and> (\<forall>l r. set (positions (bug_part_matches s') l r)
              \<subseteq> set (positions (bug_part_matches s) l r)
                  \<union> (if l = line_id line \<and> r = part_id p then set cols else {}))"
  using assms
proof (induction cols arbitrary: s)
  case Nil
  then show ?case by simp
next
  case (Cons c cols)
  let ?t = "bug_part_matches s"
  let ?L = "line_id line"
  let ?r = "part_id p"
  let ?t1 = "register_bug_part_match ?t p line c"
  from Cons.prems(3) obtain b t2 where
    bel: "bug_part_match_belongs_to_a_bug shape ?t1 p line c = Inr (b, t2)"
    by (auto simp: Let_def split: sum.splits)
  have p1: "positions ?t1 l r = (if l = ?L \<and> r = ?r then positions ?t ?L ?r @ [c] else positions ?t l r)"
    for l r by (simp add: register_bug_part_match_def positions_upd)
  have same: "\<And>l r. positions t2 l r = positions ?t1 l r"
    by (rule belongs_positions [OF bel])
  have d2: "table_distinct t2"
    using Cons.prems(1,2) unfolding table_distinct_def same p1 by auto
  have key2: "distinct (positions t2 ?L ?r @ cols)"
    using Cons.prems(2) by (simp add: same p1)
  have sub2: "set (positions t2 l r) \<subseteq> set (positions ?t l r)
                \<union> (if l = ?L \<and> r = ?r then {c} else {})" for l r
    by (auto simp: same p1)
  show ?case
  proof (cases b)
    case True
    with Cons.prems(3) bel obtain t3 where
      de: "deregister_bug_match shape t2 line c = Inr t3"
      and fl: "find_loop shape ((increment_bug_count s)\<lparr>bug_part_matches := t3\<rparr>) p line cols
                 = Inr s'"
      by (auto simp: Let_def split: sum.splits)
    from deregister_loop_exact [OF de [unfolded deregister_bug_match_def] d2]
    have d3: "table_distinct t3"
      and sub3: "\<And>l r. set (positions t3 l r) \<subseteq> set (positions t2 l r)" by auto
    have key3: "distinct (positions t3 ?L ?r @ cols)"
      using key2 d3 sub3 [of ?L ?r] by (auto simp: table_distinct_def)
    from Cons.IH [of "(increment_bug_count s)\<lparr>bug_part_matches := t3\<rparr>"] d3 key3 fl
    have r: "table_distinct (bug_part_matches s')"
      "\<And>l r. set (positions (bug_part_matches s') l r)
              \<subseteq> set (positions t3 l r) \<union> (if l = ?L \<and> r = ?r then set cols else {})"
      by auto
    have "set (positions (bug_part_matches s') l r)
              \<subseteq> set (positions ?t l r) \<union> (if l = ?L \<and> r = ?r then set (c # cols) else {})"
      for l r using r(2) [of l r] sub3 [of l r] sub2 [of l r] by (auto split: if_splits)
    with r(1) show ?thesis by blast
  next
    case False
    with Cons.prems(3) bel have
      fl: "find_loop shape (s\<lparr>bug_part_matches := t2\<rparr>) p line cols = Inr s'"
      by (simp add: Let_def)
    from Cons.IH [of "s\<lparr>bug_part_matches := t2\<rparr>"] d2 key2 fl
    have r: "table_distinct (bug_part_matches s')"
      "\<And>l r. set (positions (bug_part_matches s') l r)
              \<subseteq> set (positions t2 l r) \<union> (if l = ?L \<and> r = ?r then set cols else {})"
      by auto
    have "set (positions (bug_part_matches s') l r)
              \<subseteq> set (positions ?t l r) \<union> (if l = ?L \<and> r = ?r then set (c # cols) else {})"
      for l r using r(2) [of l r] sub2 [of l r] by (auto split: if_splits)
    with r(1) show ?thesis by blast
  qed
qed


lemma distinct_map_ConsD:
  "distinct (map f (x # xs)) \<Longrightarrow> distinct (map f xs) \<and> (\<forall>y \<in> set xs. f y \<noteq> f x)"
  by (metis distinct.simps(2) imageI list.simps(9) set_map)

lemma parts_loop_distinct:
  assumes "distinct (map part_id ps)"
    and "\<forall>q \<in> set ps. positions (bug_part_matches s) (line_id line) (part_id q) = []"
    and "table_distinct (bug_part_matches s)"
    and "parts_loop shape s line ps = Inr s'"
  shows "table_distinct (bug_part_matches s')
       \<and> (\<forall>l r. l \<noteq> line_id line \<longrightarrow>
              set (positions (bug_part_matches s') l r) \<subseteq> set (positions (bug_part_matches s) l r))"
  using assms
proof (induction ps arbitrary: s)
  case Nil
  then show ?case by simp
next
  case (Cons p ps)
  from distinct_map_ConsD [OF Cons.prems(1)] have dps: "distinct (map part_id ps)"
    and np: "\<forall>q \<in> set ps. part_id q \<noteq> part_id p" by blast+
  show ?case
  proof (cases "should_skip_bug_part_in_line (bug_part_matches s) p line")
    case True
    with Cons.prems(4) have "parts_loop shape s line ps = Inr s'" by simp
    from Cons.IH [OF dps _ Cons.prems(3) this] Cons.prems(2) show ?thesis by simp
  next
    case False
    with Cons.prems(4) obtain s1 cols where
      fi: "finditer (part_pattern p) (line_pattern line) = Inr cols"
      and fl: "find_loop shape s p line cols = Inr s1"
      by (auto simp: find_bug_part_and_bugs_in_landscape_line_def split: sum.splits)
    from Cons.prems(2) finditer_distinct [OF fi]
    have "distinct (positions (bug_part_matches s) (line_id line) (part_id p) @ cols)" by simp
    from find_loop_distinct [OF Cons.prems(3) this fl]
    have d1: "table_distinct (bug_part_matches s1)"
      and sub1: "\<And>l r. set (positions (bug_part_matches s1) l r)
              \<subseteq> set (positions (bug_part_matches s) l r)
                  \<union> (if l = line_id line \<and> r = part_id p then set cols else {})"
      by auto
    have e1: "\<forall>q \<in> set ps. positions (bug_part_matches s1) (line_id line) (part_id q) = []"
    proof
      fix q assume q: "q \<in> set ps"
      with np Cons.prems(2) sub1 [of "line_id line" "part_id q"]
      show "positions (bug_part_matches s1) (line_id line) (part_id q) = []" by auto
    qed
    have out1: "l \<noteq> line_id line \<Longrightarrow>
        set (positions (bug_part_matches s1) l r) \<subseteq> set (positions (bug_part_matches s) l r)"
      for l r using sub1 [of l r] by auto
    show ?thesis
    proof (cases "should_skip_all_bug_parts_in_line (bug_part_matches s1) p line")
      case True
      with False fi fl Cons.prems(4) have "s' = s1"
        by (simp add: find_bug_part_and_bugs_in_landscape_line_def)
      with d1 out1 show ?thesis by blast
    next
      case nb: False
      with False fi fl Cons.prems(4) have "parts_loop shape s1 line ps = Inr s'"
        by (simp add: find_bug_part_and_bugs_in_landscape_line_def)
      from Cons.IH [OF dps e1 d1 this] out1 show ?thesis by blast
    qed
  qed
qed

lemma lines_loop_distinct:
  assumes "distinct (map part_id shape)" "distinct (map line_id ls)"
    and "\<forall>l \<in> set ls. \<forall>r. positions (bug_part_matches s) (line_id l) r = []"
    and "table_distinct (bug_part_matches s)"
    and "lines_loop shape s ls = Inr s'"
  shows "table_distinct (bug_part_matches s')"
  using assms(2-5)
proof (induction ls arbitrary: s)
  case Nil
  then show ?case by simp
next
  case (Cons l ls)
  from Cons.prems(4) obtain s1 where p: "parts_loop shape s l shape = Inr s1"
    and r: "lines_loop shape s1 ls = Inr s'"
    by (auto split: sum.splits)
  from Cons.prems(2) have e: "\<forall>q \<in> set shape. positions (bug_part_matches s) (line_id l) (part_id q) = []"
    by simp
  from parts_loop_distinct [OF assms(1) e Cons.prems(3) p]
  have d1: "table_distinct (bug_part_matches s1)"
    and out: "\<And>l' r. l' \<noteq> line_id l \<Longrightarrow>
        set (positions (bug_part_matches s1) l' r) \<subseteq> set (positions (bug_part_matches s) l' r)"
    by auto
  from distinct_map_ConsD [OF Cons.prems(1)] have dl: "distinct (map line_id ls)"
    and nl: "\<forall>l' \<in> set ls. line_id l' \<noteq> line_id l" by blast+
  have e1: "\<forall>l' \<in> set ls. \<forall>r. positions (bug_part_matches s1) (line_id l') r = []"
  proof (intro ballI allI)
    fix l' r assume "l' \<in> set ls"
    with nl Cons.prems(2) out [of "line_id l'" r]
    show "positions (bug_part_matches s1) (line_id l') r = []" by auto
  qed
  from Cons.IH [OF dl e1 d1 r] show ?case .
qed

lemma read_bug_distinct: "distinct (map part_id (read_bug bug))"
proof -
  have "map part_id (read_bug bug) = map line_id (reader bug)"
    by (simp add: read_bug_def mk_Part_def comp_def)
  then show ?thesis by (simp add: reader_distinct)
qed


lemma pass_table_distinct:
  assumes "lines_loop (read_bug bug) new_BugFinder (reader landscape) = Inr s'"
  shows "table_distinct (bug_part_matches s')"
proof (rule lines_loop_distinct [OF read_bug_distinct reader_distinct _ _ assms])
  show "\<forall>l \<in> set (reader landscape). \<forall>r.
          positions (bug_part_matches new_BugFinder) (line_id l) r = []"
    by (simp add: new_BugFinder_def positions_def)
  show "table_distinct (bug_part_matches new_BugFinder)"
    by (simp add: table_distinct_def new_BugFinder_def positions_def)
qed

section \<open>The pruning rules\<close>

text \<open>
  Claim C1, at an input where the code departs from it. The bug file with the rows \<open>a\<close>,
  an empty row and \<open>b\<close> gives the parts 0 and 2. On the landscape with the lines
  \<open>a\<close> and \<open>b\<close> the engine without pruning counts one bug. With pruning the count
  is 0: for the part with id 2 \<open>should_skip_bug_part_in_line\<close> looks for a part 1 in the
  line before, and there is none.
\<close>

theorem gap_breaks_pruning:
  "find_bugs_in_landscape (read_bug [CHR ''a'', CHR 0x0A, CHR 0x0A, CHR ''b'', CHR 0x0A])
       [CHR ''a'', CHR 0x0A, CHR ''b'', CHR 0x0A] = Inr 0
   \<and> find_bugs_in_landscape_no_pruning
       (read_bug [CHR ''a'', CHR 0x0A, CHR 0x0A, CHR ''b'', CHR 0x0A])
       [CHR ''a'', CHR 0x0A, CHR ''b'', CHR 0x0A] = Inr 1"
  by code_simp

text \<open>
  For a shape whose ids are contiguous the two rules are pruning and nothing else: the cells
  that the pruning engine does not register are not live, so no bug can use them, and both
  engines count the same (lemma \<open>pruning_sound_contiguous\<close>).
\<close>

lemma live_zero: "live t l 0 c = (c \<in> set (positions t l 0))"
  by (auto simp: live_def)

lemma live_step:
  assumes "0 \<le> r"
  shows "live t l (r + 1) c = (c \<in> set (positions t l (r + 1)) \<and> live t (l - 1) r c)"
proof
  assume a: "live t l (r + 1) c"
  then have "c \<in> set (positions t (l - 0) (r + 1 - 0))" unfolding live_def using assms by fastforce
  moreover have "live t (l - 1) r c"
    unfolding live_def
  proof (intro conjI allI impI)
    show "0 \<le> r" by fact
    fix j :: int assume "0 \<le> j \<and> j \<le> r"
    then have "0 \<le> j + 1 \<and> j + 1 \<le> r + 1" by simp
    with a have "c \<in> set (positions t (l - (j + 1)) (r + 1 - (j + 1)))"
      unfolding live_def by blast
    then show "c \<in> set (positions t (l - 1 - j) (r - j))" by (simp add: algebra_simps)
  qed
  ultimately show "c \<in> set (positions t l (r + 1)) \<and> live t (l - 1) r c" by simp
next
  assume a: "c \<in> set (positions t l (r + 1)) \<and> live t (l - 1) r c"
  show "live t l (r + 1) c"
    unfolding live_def
  proof (intro conjI allI impI)
    show "0 \<le> r + 1" using assms by simp
    fix j :: int assume j: "0 \<le> j \<and> j \<le> r + 1"
    show "c \<in> set (positions t (l - j) (r + 1 - j))"
    proof (cases "j = 0")
      case True
      with a show ?thesis by simp
    next
      case False
      with j have "0 \<le> j - 1 \<and> j - 1 \<le> r" by simp
      with a have "c \<in> set (positions t (l - 1 - (j - 1)) (r - (j - 1)))"
        unfolding live_def by blast
      then show ?thesis by (simp add: algebra_simps)
    qed
  qed
qed

lemma live_sub:
  "live t l r c \<Longrightarrow> 0 \<le> j \<Longrightarrow> j \<le> r \<Longrightarrow> live t (l - j) (r - j) c"
  unfolding live_def
  by (auto simp: algebra_simps)

lemma live_mono:
  "(\<And>l r. set (positions t l r) \<subseteq> set (positions t' l r)) \<Longrightarrow> live t l r c \<Longrightarrow> live t' l r c"
  unfolding live_def by blast


lemma contiguous_nth: "contiguous shape \<Longrightarrow> j < length shape \<Longrightarrow> part_id (shape ! j) = int j"
proof -
  assume a: "contiguous shape" "j < length shape"
  then have "map part_id shape ! j = map int [0..<length shape] ! j"
    by (simp add: contiguous_def)
  with a(2) show ?thesis by simp
qed

lemma chain_live:
  assumes "contiguous shape" "k < length shape"
  shows "chain_present t (rev (take (Suc k) shape)) l c = live t l (int k) c"
  using assms(2)
proof (induction k arbitrary: l)
  case 0
  then have "take (Suc 0) shape = [shape ! 0]"
    by (cases shape) simp_all
  with contiguous_nth [OF assms(1) 0] show ?case by (simp add: live_zero)
next
  case (Suc k)
  then have k: "k < length shape" by simp
  have "take (Suc (Suc k)) shape = take (Suc k) shape @ [shape ! Suc k]"
    using Suc.prems by (simp add: take_Suc_conv_app_nth)
  then have "chain_present t (rev (take (Suc (Suc k)) shape)) l c
      = (c \<in> set (positions t l (part_id (shape ! Suc k)))
         \<and> chain_present t (rev (take (Suc k) shape)) (l - 1) c)"
    by simp
  also have "\<dots> = (c \<in> set (positions t l (int k + 1)) \<and> live t (l - 1) (int k) c)"
    using contiguous_nth [OF assms(1) Suc.prems] Suc.IH [OF k] by (simp add: add.commute)
  also have "\<dots> = live t l (int k + 1) c"
    by (rule live_step [symmetric]) simp
  finally show ?case by (simp add: add.commute)
qed

lemma chain_live_full:
  assumes "contiguous shape" "shape \<noteq> []"
  shows "chain_present t (rev shape) l c = live t l (int (length shape) - 1) c"
proof -
  from assms(2) obtain k where k: "length shape = Suc k" by (cases shape) auto
  then have "take (Suc k) shape = shape" by simp
  with chain_live [OF assms(1), of k t l c] k show ?thesis by simp
qed

lemma belongs_live:
  assumes "contiguous shape" "R < length shape" "part_id p = int R"
    and "c \<in> set (positions t (line_id line) (int R))"
    and "bug_part_match_belongs_to_a_bug shape t p line c = Inr (b, t2)"
  shows "b = (Suc R = length shape \<and> live t (line_id line) (int R) c)"
proof -
  from assms(2) have ne: "shape \<noteq> []" by auto
  then have last: "part_id (last shape) = int (length shape - 1)"
    using contiguous_nth [OF assms(1), of "length shape - 1"] by (simp add: last_conv_nth)
  show ?thesis
  proof (cases "Suc R = length shape")
    case False
    with assms(2) have "int R \<noteq> int (length shape - 1)" by auto
    with assms(3,5) last ne False show ?thesis
      by (simp add: bug_part_match_belongs_to_a_bug_def)
  next
    case True
    with assms(3,5) last ne have
      bl: "belongs_loop t (rev (butlast shape)) (line_id line) c = (b, t2)"
      by (auto simp: bug_part_match_belongs_to_a_bug_def split: if_splits)
    from belongs_loop_result [OF bl]
    have b: "b = chain_present t (rev (butlast shape)) (line_id line - 1) c" by simp
    from True last have lr: "part_id (last shape) = int R" by auto
    have "chain_present t (rev shape) (line_id line) c
        = (c \<in> set (positions t (line_id line) (int R))
           \<and> chain_present t (rev (butlast shape)) (line_id line - 1) c)"
      by (simp add: rev_last_butlast [OF ne] lr)
    with b assms(4) have bc: "b = chain_present t (rev shape) (line_id line) c"
      by simp
    from True have "int (length shape) - 1 = int R" by auto
    with chain_live_full [OF assms(1) ne, of t "line_id line" c] bc True show ?thesis
      by simp
  qed
qed


lemma positions_register:
  "positions (register_bug_part_match t p line c) l r
     = (if l = line_id line \<and> r = part_id p then positions t l r @ [c] else positions t l r)"
  by (auto simp: register_bug_part_match_def positions_upd)

lemma live_register:
  assumes bound: "\<forall>l r. positions t l r \<noteq> [] \<longrightarrow> l \<le> line_id line"
    and lv: "live (register_bug_part_match t p line c) l r c'"
  shows "(l = line_id line \<and> r = part_id p \<and> c' = c) \<or> live t l r c'"
proof (cases "l = line_id line \<and> r = part_id p \<and> c' = c")
  case True
  then show ?thesis by simp
next
  case False
  let ?t1 = "register_bug_part_match t p line c"
  from lv have r0: "0 \<le> r"
    and all: "\<And>j. 0 \<le> j \<Longrightarrow> j \<le> r \<Longrightarrow> c' \<in> set (positions ?t1 (l - j) (r - j))"
    by (auto simp: live_def)
  from all [of 0] r0 have "c' \<in> set (positions ?t1 l r)" by simp
  with False have here: "c' \<in> set (positions t l r)"
    by (auto simp: positions_register split: if_splits)
  then have "positions t l r \<noteq> []" by auto
  with bound have le: "l \<le> line_id line" by blast
  have "c' \<in> set (positions t (l - j) (r - j))" if j: "0 \<le> j" "j \<le> r" for j
  proof (cases "j = 0")
    case True
    with here show ?thesis by simp
  next
    case nz: False
    with j le have "l - j \<noteq> line_id line" by simp
    with all [OF j] show ?thesis by (simp add: positions_register)
  qed
  with r0 have "live t l r c'" by (simp add: live_def)
  then show ?thesis ..
qed

lemma rel_cong:
  assumes "rel L tP tU" "\<And>l r. positions tP' l r = positions tP l r"
    "\<And>l r. positions tU' l r = positions tU l r"
  shows "rel L tP' tU'"
  using assms(1) unfolding rel_def table_distinct_def live_def assms(2,3) .

lemma rel_register_both:
  assumes "rel L tP tU" "0 \<le> L" "line_id line = L"
    and "c \<notin> set (positions tU L (part_id p))"
  shows "rel L (register_bug_part_match tP p line c) (register_bug_part_match tU p line c)"
proof -
  let ?P = "register_bug_part_match tP p line c"
  let ?U = "register_bug_part_match tU p line c"
  from assms(1) have dP: "table_distinct tP" and dU: "table_distinct tU"
    and sub: "\<And>l r. set (positions tP l r) \<subseteq> set (positions tU l r)"
    and lv: "\<And>l r c. live tU l r c \<Longrightarrow> c \<in> set (positions tP l r)"
    and bd: "\<And>l r. positions tU l r \<noteq> [] \<Longrightarrow> 0 \<le> l \<and> l \<le> L"
    by (auto simp: rel_def)
  from assms(4) sub have nP: "c \<notin> set (positions tP L (part_id p))" by blast
  have "table_distinct ?P"
    using dP nP assms(3) by (auto simp: table_distinct_def positions_register)
  moreover have "table_distinct ?U"
    using dU assms(3,4) by (auto simp: table_distinct_def positions_register)
  moreover have "set (positions ?P l r) \<subseteq> set (positions ?U l r)" for l r
    using sub [of l r] by (auto simp: positions_register)
  moreover have "c' \<in> set (positions ?P l r)" if "live ?U l r c'" for l r c'
  proof -
    have "\<forall>l r. positions tU l r \<noteq> [] \<longrightarrow> l \<le> line_id line"
      using bd assms(3) by blast
    from live_register [OF this that]
    show ?thesis using lv [of l r c'] assms(3) by (auto simp: positions_register)
  qed
  moreover have "0 \<le> l \<and> l \<le> L" if "positions ?U l r \<noteq> []" for l r
    using that bd [of l r] assms(2,3) by (auto simp: positions_register split: if_splits)
  ultimately show ?thesis unfolding rel_def by blast
qed

lemma rel_register_idle:
  assumes "rel L tP tU" "0 \<le> L" "line_id line = L"
    and "c \<notin> set (positions tU L (part_id p))"
    and "\<not> live (register_bug_part_match tU p line c) L (part_id p) c"
  shows "rel L tP (register_bug_part_match tU p line c)"
proof -
  let ?U = "register_bug_part_match tU p line c"
  from assms(1) have dP: "table_distinct tP" and dU: "table_distinct tU"
    and sub: "\<And>l r. set (positions tP l r) \<subseteq> set (positions tU l r)"
    and lv: "\<And>l r c. live tU l r c \<Longrightarrow> c \<in> set (positions tP l r)"
    and bd: "\<And>l r. positions tU l r \<noteq> [] \<Longrightarrow> 0 \<le> l \<and> l \<le> L"
    by (auto simp: rel_def)
  have "table_distinct ?U"
    using dU assms(3,4) by (auto simp: table_distinct_def positions_register)
  moreover have "set (positions tP l r) \<subseteq> set (positions ?U l r)" for l r
    using sub [of l r] by (auto simp: positions_register)
  moreover have "c' \<in> set (positions tP l r)" if "live ?U l r c'" for l r c'
  proof -
    have "\<forall>l r. positions tU l r \<noteq> [] \<longrightarrow> l \<le> line_id line"
      using bd assms(3) by blast
    from live_register [OF this that] that assms(3,5)
    have "live tU l r c'" by auto
    then show ?thesis by (rule lv)
  qed
  moreover have "0 \<le> l \<and> l \<le> L" if "positions ?U l r \<noteq> []" for l r
    using that bd [of l r] assms(2,3) by (auto simp: positions_register split: if_splits)
  ultimately show ?thesis using dP unfolding rel_def by blast
qed

lemma rel_deregister:
  assumes "rel L tP tU"
    and "deregister_bug_match shape tU line c = Inr tU3"
    and "deregister_bug_match shape tP line c = Inr tP3"
  shows "rel L tP3 tU3"
proof -
  from assms(1) have dP: "table_distinct tP" and dU: "table_distinct tU"
    and sub: "\<And>l r. set (positions tP l r) \<subseteq> set (positions tU l r)"
    and lv: "\<And>l r c. live tU l r c \<Longrightarrow> c \<in> set (positions tP l r)"
    and bd: "\<And>l r. positions tU l r \<noteq> [] \<Longrightarrow> 0 \<le> l \<and> l \<le> L"
    by (auto simp: rel_def)
  note eU = deregister_bug_match_exact [OF assms(2) dU]
  note eP = deregister_bug_match_exact [OF assms(3) dP]
  have subU: "set (positions tU3 l r) \<subseteq> set (positions tU l r)" for l r
    using eU [of _ l r] by blast
  have "table_distinct tU3"
    using deregister_loop_exact [OF assms(2) [unfolded deregister_bug_match_def] dU] by simp
  moreover have "table_distinct tP3"
    using deregister_loop_exact [OF assms(3) [unfolded deregister_bug_match_def] dP] by simp
  moreover have "set (positions tP3 l r) \<subseteq> set (positions tU3 l r)" for l r
    using eU [of _ l r] eP [of _ l r] sub [of l r] by blast
  moreover have "c' \<in> set (positions tP3 l r)" if "live tU3 l r c'" for l r c'
  proof -
    from that have "live tU l r c'" by (rule live_mono [rotated]) (rule subU)
    then have "c' \<in> set (positions tP l r)" by (rule lv)
    moreover from that have "c' \<in> set (positions tU3 l r)"
      unfolding live_def by (metis diff_zero order_refl)
    ultimately show ?thesis using eU [of c' l r] eP [of c' l r] by blast
  qed
  moreover have "0 \<le> l \<and> l \<le> L" if "positions tU3 l r \<noteq> []" for l r
  proof -
    from that subU [of l r] have "positions tU l r \<noteq> []" by auto
    then show ?thesis by (rule bd)
  qed
  ultimately show ?thesis unfolding rel_def by blast
qed


lemma dead_not_live:
  assumes "rel L tP tU" "0 \<le> L" "line_id line = L" "part_id p = R"
    and "(1 \<le> R \<and> positions tP (L - 1) (R - 1) = []) \<or> L < R"
  shows "\<not> live (register_bug_part_match tU p line c) L R c"
proof
  let ?t1 = "register_bug_part_match tU p line c"
  assume lv: "live ?t1 L R c"
  from assms(1) have lvP: "\<And>l r c. live tU l r c \<Longrightarrow> c \<in> set (positions tP l r)"
    and bd: "\<And>l r. positions tU l r \<noteq> [] \<Longrightarrow> 0 \<le> l \<and> l \<le> L"
    by (auto simp: rel_def)
  from assms(5) show False
  proof
    assume a: "1 \<le> R \<and> positions tP (L - 1) (R - 1) = []"
    with lv have l1: "live ?t1 (L - 1) (R - 1) c" by (intro live_sub) simp_all
    have "\<forall>l r. positions tU l r \<noteq> [] \<longrightarrow> l \<le> line_id line"
      using bd assms(3) by blast
    from live_register [OF this l1] assms(3) have "live tU (L - 1) (R - 1) c" by auto
    from lvP [OF this] a show False by simp
  next
    assume a: "L < R"
    with assms(2) have "0 \<le> R" "R \<le> R" by simp_all
    with lv have "c \<in> set (positions ?t1 (L - R) (R - R))" unfolding live_def by blast
    moreover from a assms(2,3) have "L - R \<noteq> line_id line" by simp
    ultimately have "c \<in> set (positions tU (L - R) 0)" by (simp add: positions_register)
    then have "positions tU (L - R) 0 \<noteq> []" by auto
    from bd [OF this] a show False by simp
  qed
qed

lemma live_transfer:
  assumes "rel L tP tU"
  shows "live tU l r c = live tP l r c"
proof
  from assms have lvP: "\<And>l r c. live tU l r c \<Longrightarrow> c \<in> set (positions tP l r)"
    and sub: "\<And>l r. set (positions tP l r) \<subseteq> set (positions tU l r)"
    by (auto simp: rel_def)
  {
    assume a: "live tU l r c"
    then have "0 \<le> r" by (simp add: live_def)
    moreover have "c \<in> set (positions tP (l - j) (r - j))" if "0 \<le> j" "j \<le> r" for j
      using live_sub [OF a that] by (rule lvP)
    ultimately show "live tP l r c" by (simp add: live_def)
  }
  {
    assume "live tP l r c"
    then show "live tU l r c" by (rule live_mono [rotated]) (rule sub)
  }
qed

lemma belongs_total:
  "shape \<noteq> [] \<Longrightarrow> \<exists>b t2. bug_part_match_belongs_to_a_bug shape t p line c = Inr (b, t2)"
  by (simp add: bug_part_match_belongs_to_a_bug_def) (metis surj_pair)

lemma find_loop_sim_both:
  assumes "contiguous shape" "R < length shape" "part_id p = int R"
    and "line_id line = L" "0 \<le> L"
    and "bug_count sP = bug_count sU" "rel L (bug_part_matches sP) (bug_part_matches sU)"
    and "distinct (positions (bug_part_matches sU) L (int R) @ cols)"
    and "find_loop shape sU p line cols = Inr sU'"
  shows "\<exists>sP'. find_loop shape sP p line cols = Inr sP' \<and> bug_count sP' = bug_count sU'
           \<and> rel L (bug_part_matches sP') (bug_part_matches sU')"
  using assms(6-9)
proof (induction cols arbitrary: sP sU)
  case Nil
  then show ?case by simp
next
  case (Cons c cols)
  let ?tU = "bug_part_matches sU" and ?tP = "bug_part_matches sP"
  let ?tU1 = "register_bug_part_match ?tU p line c"
  let ?tP1 = "register_bug_part_match ?tP p line c"
  from assms(2) have ne: "shape \<noteq> []" by auto
  from Cons.prems(3) have fresh: "c \<notin> set (positions ?tU L (part_id p))"
    by (simp add: assms(3))
  have r1: "rel L ?tP1 ?tU1"
    by (rule rel_register_both [OF Cons.prems(2) assms(5,4) fresh])
  from Cons.prems(4) obtain bU tU2 where
    belU: "bug_part_match_belongs_to_a_bug shape ?tU1 p line c = Inr (bU, tU2)"
    by (auto simp: Let_def split: sum.splits)
  from belongs_total [OF ne] obtain bP tP2 where
    belP: "bug_part_match_belongs_to_a_bug shape ?tP1 p line c = Inr (bP, tP2)" by blast
  have inU: "c \<in> set (positions ?tU1 (line_id line) (int R))"
    and inP: "c \<in> set (positions ?tP1 (line_id line) (int R))"
    by (simp_all add: positions_register assms(3))
  have bU: "bU = (Suc R = length shape \<and> live ?tU1 L (int R) c)"
    using belongs_live [OF assms(1-3) inU belU] assms(4) by simp
  have bP: "bP = (Suc R = length shape \<and> live ?tP1 L (int R) c)"
    using belongs_live [OF assms(1-3) inP belP] assms(4) by simp
  from bU bP live_transfer [OF r1] have beq: "bP = bU" by simp
  have r2: "rel L tP2 tU2"
    by (rule rel_cong [OF r1 belongs_positions [OF belP] belongs_positions [OF belU]])
  have pU2: "positions tU2 L (int R) = positions ?tU L (int R) @ [c]"
    using belongs_positions [OF belU, of L "int R"] assms(3,4) by (simp add: positions_register)
  show ?case
  proof (cases bU)
    case True
    with Cons.prems(4) belU obtain tU3 where
      deU: "deregister_bug_match shape tU2 line c = Inr tU3"
      and flU: "find_loop shape ((increment_bug_count sU)\<lparr>bug_part_matches := tU3\<rparr>) p line cols
                 = Inr sU'"
      by (auto simp: Let_def split: sum.splits)
    from True beq belP have belP': "bug_part_match_belongs_to_a_bug shape ?tP1 p line c
        = Inr (True, tP2)" by simp
    from deregister_after_belongs [OF belP'] obtain tP3 where
      deP: "deregister_bug_match shape tP2 line c = Inr tP3" by blast
    have r3: "rel L tP3 tU3" by (rule rel_deregister [OF r2 deU deP])
    then have d3: "table_distinct tU3" by (simp add: rel_def)
    from r2 have d2: "table_distinct tU2" by (simp add: rel_def)
    have "set (positions tU3 L (int R)) \<subseteq> set (positions tU2 L (int R))"
      using deregister_bug_match_exact [OF deU d2, of _ L "int R"] by blast
    with Cons.prems(3) pU2 d3 have fr3: "distinct (positions tU3 L (int R) @ cols)"
      by (auto simp: table_distinct_def)
    let ?sP3 = "(increment_bug_count sP)\<lparr>bug_part_matches := tP3\<rparr>"
    let ?sU3 = "(increment_bug_count sU)\<lparr>bug_part_matches := tU3\<rparr>"
    have "bug_count ?sP3 = bug_count ?sU3"
      using Cons.prems(1) by (simp add: increment_bug_count_def)
    moreover have "rel L (bug_part_matches ?sP3) (bug_part_matches ?sU3)" using r3 by simp
    moreover have "distinct (positions (bug_part_matches ?sU3) L (int R) @ cols)"
      using fr3 by simp
    ultimately obtain sP' where "find_loop shape ?sP3 p line cols = Inr sP'"
      "bug_count sP' = bug_count sU'" "rel L (bug_part_matches sP') (bug_part_matches sU')"
      using Cons.IH [OF _ _ _ flU] by blast
    with belP' deP show ?thesis by auto
  next
    case False
    with Cons.prems(4) belU have
      flU: "find_loop shape (sU\<lparr>bug_part_matches := tU2\<rparr>) p line cols = Inr sU'"
      by (simp add: Let_def)
    from False beq belP have belP': "bug_part_match_belongs_to_a_bug shape ?tP1 p line c
        = Inr (False, tP2)" by simp
    let ?sP2 = "sP\<lparr>bug_part_matches := tP2\<rparr>"
    let ?sU2 = "sU\<lparr>bug_part_matches := tU2\<rparr>"
    have "bug_count ?sP2 = bug_count ?sU2" using Cons.prems(1) by simp
    moreover have "rel L (bug_part_matches ?sP2) (bug_part_matches ?sU2)" using r2 by simp
    moreover have "distinct (positions (bug_part_matches ?sU2) L (int R) @ cols)"
      using Cons.prems(3) pU2 by simp
    ultimately obtain sP' where "find_loop shape ?sP2 p line cols = Inr sP'"
      "bug_count sP' = bug_count sU'" "rel L (bug_part_matches sP') (bug_part_matches sU')"
      using Cons.IH [OF _ _ _ flU] by blast
    with belP' show ?thesis by auto
  qed
qed

lemma find_loop_sim_idle:
  assumes "contiguous shape" "R < length shape" "part_id p = int R"
    and "line_id line = L" "0 \<le> L"
    and "(1 \<le> int R \<and> positions tP (L - 1) (int R - 1) = []) \<or> L < int R"
    and "rel L tP (bug_part_matches sU)"
    and "distinct (positions (bug_part_matches sU) L (int R) @ cols)"
    and "find_loop shape sU p line cols = Inr sU'"
  shows "bug_count sU' = bug_count sU \<and> rel L tP (bug_part_matches sU')"
  using assms(7-9)
proof (induction cols arbitrary: sU)
  case Nil
  then show ?case by simp
next
  case (Cons c cols)
  let ?tU = "bug_part_matches sU"
  let ?tU1 = "register_bug_part_match ?tU p line c"
  from Cons.prems(2) have fresh: "c \<notin> set (positions ?tU L (part_id p))"
    by (simp add: assms(3))
  have nl: "\<not> live ?tU1 L (int R) c"
    by (rule dead_not_live [OF Cons.prems(1) assms(5,4,3,6)])
  then have nl': "\<not> live ?tU1 L (part_id p) c" by (simp add: assms(3))
  have r1: "rel L tP ?tU1"
    by (rule rel_register_idle [OF Cons.prems(1) assms(5,4) fresh nl'])
  from Cons.prems(3) obtain bU tU2 where
    belU: "bug_part_match_belongs_to_a_bug shape ?tU1 p line c = Inr (bU, tU2)"
    by (auto simp: Let_def split: sum.splits)
  have inU: "c \<in> set (positions ?tU1 (line_id line) (int R))"
    by (simp add: positions_register assms(3))
  have "bU = (Suc R = length shape \<and> live ?tU1 L (int R) c)"
    using belongs_live [OF assms(1-3) inU belU] assms(4) by simp
  with nl have nb: "\<not> bU" by simp
  have r2: "rel L tP tU2"
    by (rule rel_cong [OF r1 refl belongs_positions [OF belU]])
  have pU2: "positions tU2 L (int R) = positions ?tU L (int R) @ [c]"
    using belongs_positions [OF belU, of L "int R"] assms(3,4) by (simp add: positions_register)
  from nb Cons.prems(3) belU have
    flU: "find_loop shape (sU\<lparr>bug_part_matches := tU2\<rparr>) p line cols = Inr sU'"
    by (simp add: Let_def)
  let ?sU2 = "sU\<lparr>bug_part_matches := tU2\<rparr>"
  have "rel L tP (bug_part_matches ?sU2)" using r2 by simp
  moreover have "distinct (positions (bug_part_matches ?sU2) L (int R) @ cols)"
    using Cons.prems(2) pU2 by simp
  ultimately have "bug_count sU' = bug_count ?sU2 \<and> rel L tP (bug_part_matches sU')"
    using Cons.IH [OF _ _ flU] by blast
  then show ?case by simp
qed


lemma drop_eq_ConsD:
  assumes "drop R xs = p # ps"
  shows "R < length xs \<and> p = xs ! R \<and> ps = drop (Suc R) xs"
proof -
  from assms have R: "R < length xs" by (cases "R < length xs") simp_all
  from Cons_nth_drop_Suc [OF R] assms show ?thesis using R by simp
qed

lemma find_loop_fresh_other:
  assumes "rel L tP (bug_part_matches sU)" "line_id line = L"
    and "\<forall>r \<ge> part_id p. positions (bug_part_matches sU) L r = []"
    and "finditer pat s = Inr cols"
    and "find_loop shape sU p line cols = Inr sU1"
  shows "\<forall>r \<ge> part_id p + 1. positions (bug_part_matches sU1) L r = []"
proof -
  from assms(1) have d: "table_distinct (bug_part_matches sU)" by (simp add: rel_def)
  from assms(3) finditer_distinct [OF assms(4)]
  have "distinct (positions (bug_part_matches sU) (line_id line) (part_id p) @ cols)"
    by (simp add: assms(2))
  from find_loop_distinct [OF d this assms(5)]
  have sub: "\<And>l r. set (positions (bug_part_matches sU1) l r)
              \<subseteq> set (positions (bug_part_matches sU) l r)
                  \<union> (if l = line_id line \<and> r = part_id p then set cols else {})"
    by blast
  show ?thesis
  proof (intro allI impI)
    fix r assume "part_id p + 1 \<le> r"
    with sub [of L r] assms(3) show "positions (bug_part_matches sU1) L r = []" by auto
  qed
qed

lemma parts_idle:
  assumes "contiguous shape" "line_id line = L" "0 \<le> L"
    and "ps = drop R shape" "L < int R"
    and "rel L tP (bug_part_matches sU)"
    and "\<forall>r \<ge> int R. positions (bug_part_matches sU) L r = []"
    and "parts_loop_no_pruning shape sU line ps = Inr sU'"
  shows "bug_count sU' = bug_count sU \<and> rel L tP (bug_part_matches sU')"
  using assms(4-8)
proof (induction ps arbitrary: R sU)
  case Nil
  then show ?case by simp
next
  case (Cons p ps)
  from drop_eq_ConsD [OF Cons.prems(1) [symmetric]]
  have R: "R < length shape" and p: "p = shape ! R" and ps: "ps = drop (Suc R) shape"
    by simp_all
  from p R have id: "part_id p = int R" by (simp add: contiguous_nth [OF assms(1)])
  from Cons.prems(5) obtain cols sU1 where
    fi: "finditer (part_pattern p) (line_pattern line) = Inr cols"
    and fl: "find_loop shape sU p line cols = Inr sU1"
    and rest: "parts_loop_no_pruning shape sU1 line ps = Inr sU'"
    by (auto simp: find_bug_part_and_bugs_in_landscape_line_def split: sum.splits)
  from Cons.prems(4) finditer_distinct [OF fi]
  have fr: "distinct (positions (bug_part_matches sU) L (int R) @ cols)" by simp
  from Cons.prems(2) have dead: "(1 \<le> int R \<and> positions tP (L - 1) (int R - 1) = []) \<or> L < int R"
    by simp
  from find_loop_sim_idle [OF assms(1) R id assms(2,3) dead Cons.prems(3) fr fl]
  have c1: "bug_count sU1 = bug_count sU" and r1: "rel L tP (bug_part_matches sU1)" by auto
  from Cons.prems(4) id have "\<forall>r \<ge> part_id p. positions (bug_part_matches sU) L r = []" by simp
  from find_loop_fresh_other [OF Cons.prems(3) assms(2) this fi fl] id
  have f1: "\<forall>r \<ge> int (Suc R). positions (bug_part_matches sU1) L r = []" by simp
  from Cons.prems(2) have "L < int (Suc R)" by simp
  from Cons.IH [OF ps this r1 f1 rest] c1 show ?case by simp
qed

lemma parts_sim:
  assumes "contiguous shape" "line_id line = L" "0 \<le> L"
    and "ps = drop R shape"
    and "bug_count sP = bug_count sU" "rel L (bug_part_matches sP) (bug_part_matches sU)"
    and "\<forall>r \<ge> int R. positions (bug_part_matches sU) L r = []"
    and "parts_loop_no_pruning shape sU line ps = Inr sU'"
  shows "\<exists>sP'. parts_loop shape sP line ps = Inr sP' \<and> bug_count sP' = bug_count sU'
           \<and> rel L (bug_part_matches sP') (bug_part_matches sU')"
  using assms(4-8)
proof (induction ps arbitrary: R sP sU)
  case Nil
  then show ?case by simp
next
  case (Cons p ps)
  from drop_eq_ConsD [OF Cons.prems(1) [symmetric]]
  have R: "R < length shape" and p: "p = shape ! R" and ps: "ps = drop (Suc R) shape"
    by simp_all
  from p R have id: "part_id p = int R" by (simp add: contiguous_nth [OF assms(1)])
  from Cons.prems(5) obtain cols sU1 where
    fi: "finditer (part_pattern p) (line_pattern line) = Inr cols"
    and fl: "find_loop shape sU p line cols = Inr sU1"
    and rest: "parts_loop_no_pruning shape sU1 line ps = Inr sU'"
    by (auto simp: find_bug_part_and_bugs_in_landscape_line_def split: sum.splits)
  from Cons.prems(4) finditer_distinct [OF fi]
  have fr: "distinct (positions (bug_part_matches sU) L (int R) @ cols)" by simp
  from Cons.prems(4) id have "\<forall>r \<ge> part_id p. positions (bug_part_matches sU) L r = []" by simp
  from find_loop_fresh_other [OF Cons.prems(3) assms(2) this fi fl] id
  have f1: "\<forall>r \<ge> int (Suc R). positions (bug_part_matches sU1) L r = []" by simp
  show ?case
  proof (cases "should_skip_bug_part_in_line (bug_part_matches sP) p line")
    case True
    then have dead: "(1 \<le> int R \<and> positions (bug_part_matches sP) (L - 1) (int R - 1) = [])
        \<or> L < int R"
      by (auto simp: should_skip_bug_part_in_line_def id assms(2) positions_def split: if_splits)
    from find_loop_sim_idle [OF assms(1) R id assms(2,3) dead Cons.prems(3) fr fl]
    have c1: "bug_count sU1 = bug_count sU"
      and r1: "rel L (bug_part_matches sP) (bug_part_matches sU1)" by auto
    from c1 Cons.prems(2) have "bug_count sP = bug_count sU1" by simp
    from Cons.IH [OF ps this r1 f1 rest] True show ?thesis by simp
  next
    case False
    from find_loop_sim_both [OF assms(1) R id assms(2,3) Cons.prems(2,3) fr fl]
    obtain sP1 where flP: "find_loop shape sP p line cols = Inr sP1"
      and c1: "bug_count sP1 = bug_count sU1"
      and r1: "rel L (bug_part_matches sP1) (bug_part_matches sU1)" by blast
    from fi flP have fP: "find_bug_part_and_bugs_in_landscape_line shape sP p line = Inr sP1"
      by (simp add: find_bug_part_and_bugs_in_landscape_line_def)
    show ?thesis
    proof (cases "should_skip_all_bug_parts_in_line (bug_part_matches sP1) p line")
      case True
      then have "L \<le> int R"
        by (auto simp: should_skip_all_bug_parts_in_line_def id assms(2) split: if_splits)
      then have "L < int (Suc R)" by simp
      from parts_idle [OF assms(1-3) ps this r1 f1 rest] c1
      have "bug_count sP1 = bug_count sU'" "rel L (bug_part_matches sP1) (bug_part_matches sU')"
        by simp_all
      with False fP True show ?thesis by simp
    next
      case nb: False
      from Cons.IH [OF ps c1 r1 f1 rest] False fP nb show ?thesis by simp
    qed
  qed
qed

lemma rel_mono:
  assumes "rel L0 tP tU" "L0 \<le> L"
  shows "rel L tP tU"
proof -
  from assms(1) have bd: "\<And>l r. positions tU l r \<noteq> [] \<Longrightarrow> 0 \<le> l \<and> l \<le> L0"
    unfolding rel_def by blast
  have "0 \<le> l \<and> l \<le> L" if "positions tU l r \<noteq> []" for l r
    using bd [OF that] assms(2) by simp
  with assms(1) show ?thesis unfolding rel_def by blast
qed

lemma lines_sim:
  assumes "contiguous shape"
    and "sorted_wrt (<) (map line_id ls)" "\<forall>l \<in> set ls. L0 < line_id l \<and> 0 \<le> line_id l"
    and "bug_count sP = bug_count sU" "rel L0 (bug_part_matches sP) (bug_part_matches sU)"
    and "lines_loop_no_pruning shape sU ls = Inr sU'"
  shows "\<exists>sP'. lines_loop shape sP ls = Inr sP' \<and> bug_count sP' = bug_count sU'"
  using assms(2-6)
proof (induction ls arbitrary: L0 sP sU)
  case Nil
  then show ?case by simp
next
  case (Cons l ls)
  let ?L = "line_id l"
  from Cons.prems(5) obtain sU1 where
    pU: "parts_loop_no_pruning shape sU l shape = Inr sU1"
    and rest: "lines_loop_no_pruning shape sU1 ls = Inr sU'"
    by (auto split: sum.splits)
  from Cons.prems(2) have L: "L0 < ?L" "0 \<le> ?L" by simp_all
  from L(1) have "L0 \<le> ?L" by simp
  with Cons.prems(4) have r: "rel ?L (bug_part_matches sP) (bug_part_matches sU)"
    by (rule rel_mono)
  have fresh: "\<forall>r \<ge> int 0. positions (bug_part_matches sU) ?L r = []"
  proof (intro allI impI, rule ccontr)
    fix r assume "positions (bug_part_matches sU) ?L r \<noteq> []"
    with Cons.prems(4) have "?L \<le> L0" unfolding rel_def by blast
    with L(1) show False by simp
  qed
  have "shape = drop 0 shape" by simp
  from parts_sim [OF assms(1) refl L(2) this Cons.prems(3) r fresh pU]
  obtain sP1 where pP: "parts_loop shape sP l shape = Inr sP1"
    and c1: "bug_count sP1 = bug_count sU1"
    and r1: "rel ?L (bug_part_matches sP1) (bug_part_matches sU1)" by blast
  from Cons.prems(1) have s: "sorted_wrt (<) (map line_id ls)"
    and a: "\<forall>l' \<in> set ls. ?L < line_id l'" by auto
  from a L(2) have "\<forall>l' \<in> set ls. ?L < line_id l' \<and> 0 \<le> line_id l'" by auto
  from Cons.IH [OF s this c1 r1 rest] pP show ?case by simp
qed


lemma find_loop_total:
  "shape \<noteq> [] \<Longrightarrow> \<exists>s'. find_loop shape s p line cols = Inr s'"
proof (induction cols arbitrary: s)
  case Nil
  then show ?case by simp
next
  case (Cons c cols)
  let ?t1 = "register_bug_part_match (bug_part_matches s) p line c"
  from belongs_total [OF Cons.prems] obtain b t2 where
    bel: "bug_part_match_belongs_to_a_bug shape ?t1 p line c = Inr (b, t2)" by blast
  show ?case
  proof (cases b)
    case True
    with bel deregister_after_belongs [of shape "bug_part_matches s" p line c t2]
    obtain t3 where "deregister_bug_match shape t2 line c = Inr t3" by auto
    with bel True Cons.IH [OF Cons.prems] show ?thesis by simp
  next
    case False
    with bel Cons.IH [OF Cons.prems] show ?thesis by simp
  qed
qed

lemma parts_no_pruning_total:
  assumes "shape \<noteq> []" "compiled ps"
  shows "\<exists>s'. parts_loop_no_pruning shape s line ps = Inr s'"
  using assms(2)
proof (induction ps arbitrary: s)
  case Nil
  then show ?case by simp
next
  case (Cons p ps)
  from Cons.prems have cp: "compiled ps"
    and "\<exists>a rest. part_pattern p = format_pattern (a # rest)"
    by (auto simp: compiled_def)
  then obtain cols where fi: "finditer (part_pattern p) (line_pattern line) = Inr cols"
    by (auto simp: finditer_compiled)
  from find_loop_total [OF assms(1)] obtain s1 where
    "find_loop shape s p line cols = Inr s1" by blast
  with fi Cons.IH [OF cp, of s1] show ?case
    by (simp add: find_bug_part_and_bugs_in_landscape_line_def)
qed

lemma lines_no_pruning_total:
  assumes "compiled shape"
  shows "\<exists>s'. lines_loop_no_pruning shape s ls = Inr s'"
proof (induction ls arbitrary: s)
  case Nil
  then show ?case by simp
next
  case (Cons l ls)
  have "\<exists>s1. parts_loop_no_pruning shape s l shape = Inr s1"
  proof (cases "shape = []")
    case True
    then show ?thesis by simp
  next
    case False
    then show ?thesis using assms by (rule parts_no_pruning_total)
  qed
  then obtain s1 where "parts_loop_no_pruning shape s l shape = Inr s1" by blast
  with Cons [of s1] show ?case by simp
qed

lemma rel_empty: "rel (- 1) Map.empty Map.empty"
proof -
  have "\<not> live Map.empty l r c" for l r c
  proof
    assume "live Map.empty l r c"
    then have "c \<in> set (positions Map.empty (l - 0) (r - 0))"
      unfolding live_def by blast
    then show False by (simp add: positions_def)
  qed
  then show ?thesis by (simp add: rel_def table_distinct_def positions_def)
qed

lemma pruning_sound_contiguous:
  assumes "contiguous (read_bug bug)"
  shows "find_bugs_in_landscape_no_pruning (read_bug bug) landscape
       = find_bugs_in_landscape (read_bug bug) landscape"
proof -
  let ?shape = "read_bug bug" and ?ls = "reader landscape"
  from lines_no_pruning_total [OF compiled_read_bug] obtain sU' where
    U: "lines_loop_no_pruning ?shape new_BugFinder ?ls = Inr sU'" by blast
  from reader_from_ids [of 0 "file_lines landscape"]
  have s: "sorted_wrt (<) (map line_id ?ls)"
    and a: "\<forall>l \<in> set ?ls. - 1 < line_id l \<and> 0 \<le> line_id l"
    by (auto simp: reader_def)
  have r: "rel (- 1) (bug_part_matches new_BugFinder) (bug_part_matches new_BugFinder)"
    by (simp add: new_BugFinder_def rel_empty)
  from lines_sim [OF assms s a refl r U] obtain sP' where
    "lines_loop ?shape new_BugFinder ?ls = Inr sP'" "bug_count sP' = bug_count sU'" by blast
  with U show ?thesis
    by (simp add: find_bugs_in_landscape_def find_bugs_in_landscape_no_pruning_def)
qed

section \<open>Deregistration never fails\<close>

lemma parts_loop_total:
  assumes "shape \<noteq> []" "compiled ps"
  shows "\<exists>s'. parts_loop shape s line ps = Inr s'"
  using assms(2)
proof (induction ps arbitrary: s)
  case Nil
  then show ?case by simp
next
  case (Cons p ps)
  from Cons.prems have cp: "compiled ps"
    and "\<exists>a rest. part_pattern p = format_pattern (a # rest)"
    by (auto simp: compiled_def)
  then obtain cols where fi: "finditer (part_pattern p) (line_pattern line) = Inr cols"
    by (auto simp: finditer_compiled)
  from find_loop_total [OF assms(1)] obtain s1 where
    "find_loop shape s p line cols = Inr s1" by blast
  with fi Cons.IH [OF cp, of s1] Cons.IH [OF cp, of s] show ?case
    by (simp add: find_bug_part_and_bugs_in_landscape_line_def)
qed

lemma lines_loop_total:
  assumes "compiled shape"
  shows "\<exists>s'. lines_loop shape s ls = Inr s'"
proof (induction ls arbitrary: s)
  case Nil
  then show ?case by simp
next
  case (Cons l ls)
  have "\<exists>s1. parts_loop shape s l shape = Inr s1"
  proof (cases "shape = []")
    case True
    then show ?thesis by simp
  next
    case False
    then show ?thesis using assms by (rule parts_loop_total)
  qed
  then obtain s1 where "parts_loop shape s l shape = Inr s1" by blast
  with Cons [of s1] show ?case by simp
qed

text \<open>
  Claim C10. In no execution of \<open>find_bugs_in_landscape\<close> does \<open>list.remove\<close> raise:
  whatever the shape and the landscape, the run does not end in a \<open>ValueError\<close>.
  Deregistration runs only after \<open>bug_part_match_belongs_to_a_bug\<close> has found the
  position at every earlier part's line, and after the position of the last part was
  registered (lemma \<open>deregister_after_belongs\<close>). With a bug and a landscape read from
  files the run ends normally, with a count.
\<close>

theorem deregister_never_raises:
  "find_bugs_in_landscape shape landscape \<noteq> Inl ValueError
   \<and> (\<exists>n. bug_finder_main bug landscape = Inr n)"
proof
  have "lines_loop shape new_BugFinder (reader landscape) \<noteq> Inl ValueError"
    by (rule lines_loop_no_ValueError)
  then show "find_bugs_in_landscape shape landscape \<noteq> Inl ValueError"
    by (cases "lines_loop shape new_BugFinder (reader landscape)")
       (simp_all add: find_bugs_in_landscape_def)
next
  from lines_loop_total [OF compiled_read_bug] obtain s' where
    "lines_loop (read_bug bug) new_BugFinder (reader landscape) = Inr s'" by blast
  then show "\<exists>n. bug_finder_main bug landscape = Inr n"
    by (simp add: bug_finder_main_def find_bugs_in_landscape_def)
qed

section \<open>Retired cells stay retired\<close>

lemma deregister_loop_subset:
  "deregister_loop t ps ln c = Inr t' \<Longrightarrow> set (positions t' l r) \<subseteq> set (positions t l r)"
proof (induction ps arbitrary: t ln)
  case Nil
  then show ?case by simp
next
  case (Cons p ps)
  define t1 where "t1 = t((ln, part_id p) \<mapsto> remove1 c (positions t ln (part_id p)))"
  from Cons.prems have run: "deregister_loop t1 ps (ln - 1) c = Inr t'"
    unfolding t1_def by (simp del: fun_upd_apply split: if_splits)
  have "set (positions t1 l r) \<subseteq> set (positions t l r)"
    unfolding t1_def using set_remove1_subset [of c "positions t ln (part_id p)"]
    by (auto simp: positions_upd)
  with Cons.IH [OF run] show ?case by blast
qed

lemma find_loop_subset:
  assumes "find_loop shape s p line cols = Inr s'"
  shows "bug_count s \<le> bug_count s'
       \<and> set (positions (bug_part_matches s') l r)
           \<subseteq> set (positions (bug_part_matches s) l r)
               \<union> (if l = line_id line \<and> r = part_id p then set cols else {})"
  using assms
proof (induction cols arbitrary: s)
  case Nil
  then show ?case by simp
next
  case (Cons c cols)
  let ?t1 = "register_bug_part_match (bug_part_matches s) p line c"
  from Cons.prems obtain b t2 where
    bel: "bug_part_match_belongs_to_a_bug shape ?t1 p line c = Inr (b, t2)"
    by (auto simp: Let_def split: sum.splits)
  have sub2: "set (positions t2 l r) \<subseteq> set (positions (bug_part_matches s) l r)
                \<union> (if l = line_id line \<and> r = part_id p then {c} else {})"
    by (auto simp: belongs_positions [OF bel] positions_register)
  show ?case
  proof (cases b)
    case True
    with Cons.prems bel obtain t3 where
      de: "deregister_bug_match shape t2 line c = Inr t3"
      and fl: "find_loop shape ((increment_bug_count s)\<lparr>bug_part_matches := t3\<rparr>) p line cols
                 = Inr s'"
      by (auto simp: Let_def split: sum.splits)
    from deregister_loop_subset [OF de [unfolded deregister_bug_match_def]]
    have sub3: "set (positions t3 l r) \<subseteq> set (positions t2 l r)" .
    from Cons.IH [OF fl] sub3 sub2 show ?thesis
      by (auto simp: increment_bug_count_def split: if_splits)
  next
    case False
    with Cons.prems bel have
      fl: "find_loop shape (s\<lparr>bug_part_matches := t2\<rparr>) p line cols = Inr s'"
      by (simp add: Let_def)
    from Cons.IH [OF fl] sub2 show ?thesis by (auto split: if_splits)
  qed
qed

lemma parts_loop_subset:
  assumes "parts_loop shape s line ps = Inr s'"
  shows "bug_count s \<le> bug_count s'
       \<and> set (positions (bug_part_matches s') l r)
           \<subseteq> set (positions (bug_part_matches s) l r)
               \<union> (if l = line_id line \<and> r \<in> part_id ` set ps then UNIV else {})"
  using assms
proof (induction ps arbitrary: s)
  case Nil
  then show ?case by simp
next
  case (Cons p ps)
  show ?case
  proof (cases "should_skip_bug_part_in_line (bug_part_matches s) p line")
    case True
    with Cons.prems have "parts_loop shape s line ps = Inr s'" by simp
    from Cons.IH [OF this] show ?thesis by (auto split: if_splits)
  next
    case False
    with Cons.prems obtain s1 cols where
      fi: "finditer (part_pattern p) (line_pattern line) = Inr cols"
      and fl: "find_loop shape s p line cols = Inr s1"
      by (auto simp: find_bug_part_and_bugs_in_landscape_line_def split: sum.splits)
    note f1 = find_loop_subset [OF fl, of l r]
    show ?thesis
    proof (cases "should_skip_all_bug_parts_in_line (bug_part_matches s1) p line")
      case True
      with False fi fl Cons.prems have "s' = s1"
        by (simp add: find_bug_part_and_bugs_in_landscape_line_def)
      with f1 show ?thesis by (auto split: if_splits)
    next
      case nb: False
      with False fi fl Cons.prems have "parts_loop shape s1 line ps = Inr s'"
        by (simp add: find_bug_part_and_bugs_in_landscape_line_def)
      from Cons.IH [OF this] f1 show ?thesis by (auto split: if_splits)
    qed
  qed
qed

lemma lines_loop_subset:
  assumes "lines_loop shape s ls = Inr s'"
  shows "bug_count s \<le> bug_count s'
       \<and> set (positions (bug_part_matches s') l r)
           \<subseteq> set (positions (bug_part_matches s) l r)
               \<union> (if l \<in> line_id ` set ls then UNIV else {})"
  using assms
proof (induction ls arbitrary: s)
  case Nil
  then show ?case by simp
next
  case (Cons l0 ls)
  from Cons.prems obtain s1 where p: "parts_loop shape s l0 shape = Inr s1"
    and rest: "lines_loop shape s1 ls = Inr s'"
    by (auto split: sum.splits)
  from parts_loop_subset [OF p, of l r] Cons.IH [OF rest] show ?case
    by (auto split: if_splits)
qed


lemma pass_from_parts_loop:
  assumes "\<not> should_skip_bug_part_in_line (bug_part_matches s) p line"
    and "finditer (part_pattern p) (line_pattern line) = Inr cols"
  shows "(case parts_loop shape s line (p # ps) of
            Inl e \<Rightarrow> Inl e
          | Inr s2 \<Rightarrow> lines_loop shape s2 ls)
       = pass_from shape s p line cols ps ls"
  using assms
  by (simp add: pass_from_def find_bug_part_and_bugs_in_landscape_line_def split: sum.splits)

lemma chain_index:
  "chain_present t ps ln c
     = (\<forall>j<length ps. c \<in> set (positions t (ln - int j) (part_id (ps ! j))))"
proof (induction ps arbitrary: ln)
  case Nil
  show ?case by simp
next
  case (Cons p ps)
  have "(\<forall>j<length ps. c \<in> set (positions t (ln - 1 - int j) (part_id (ps ! j))))
      = (\<forall>j<length ps. c \<in> set (positions t (ln - int (Suc j)) (part_id ((p # ps) ! Suc j))))"
    by (simp add: algebra_simps)
  then show ?case by (simp add: Cons.IH All_less_Suc2 del: of_nat_Suc)
qed

lemma chain_shape_index:
  "chain_present t (rev shape) ln c
     = (\<forall>k<length shape. c \<in> set (positions t (ln - int k)
                                   (part_id (shape ! (length shape - 1 - k)))))"
  by (simp add: chain_index rev_nth)

text \<open>
  Claim C4. Take a state of a pass (its lists are free of repetitions), a column \<open>c\<close>
  not yet registered for the part at the line, and let the registration of \<open>c\<close> complete
  a bug: all \<open>n\<close> cells of the bug are then in the table, column \<open>c\<close> at line
  \<open>L - k\<close> for the row \<open>n - 1 - k\<close> of the shape, under the id the table stores that
  row with (\<open>k = 0, \<dots>, n - 1\<close>). Deregistration succeeds and the loop goes on with
  the count incremented by one. In the table it leaves, a position is registered exactly when
  it was registered before and is not one of these \<open>n\<close> cells: they are all removed and
  every other cell is untouched. Whatever the rest of the pass (the later columns of the
  part, the parts after it, the lines after the line; \<open>pass_from\<close> is what the loops
  of the engine do from there, lemma \<open>pass_from_parts_loop\<close>), at its end the count
  has grown by at least one and the \<open>n\<close> removed cells are still out of the table; a bug being counted
  only with all its cells in the table, they serve no second bug. And the final count of a
  pass is at most the number of cells that any one row of the shape matches in the whole
  landscape.
\<close>

theorem retirement_exact:
  assumes "table_distinct (bug_part_matches s)"
    and "c \<notin> set (positions (bug_part_matches s) (line_id line) (part_id p))"
    and "bug_part_match_belongs_to_a_bug shape
           (register_bug_part_match (bug_part_matches s) p line c) p line c = Inr (True, t2)"
    and "c \<notin> set cols"
    and "part_id p \<notin> part_id ` set rest_parts"
    and "\<forall>l \<in> set rest_lines. line_id line < line_id l"
  shows "(\<exists>t3. deregister_bug_match shape t2 line c = Inr t3
            \<and> find_loop shape s p line (c # cols)
                = find_loop shape ((increment_bug_count s)\<lparr>bug_part_matches := t3\<rparr>) p line cols
            \<and> bug_count ((increment_bug_count s)\<lparr>bug_part_matches := t3\<rparr>) = bug_count s + 1
            \<and> table_distinct t3
            \<and> (\<forall>l r c'. (c' \<in> set (positions t3 l r))
                  = (c' \<in> set (positions (register_bug_part_match (bug_part_matches s) p line c) l r)
                     \<and> \<not> (c' = c \<and> (\<exists>k<length shape. l = line_id line - int k
                              \<and> r = part_id (shape ! (length shape - 1 - k)))))))
       \<and> (\<forall>k<length shape. c \<in> set (positions t2 (line_id line - int k)
                                      (part_id (shape ! (length shape - 1 - k)))))
       \<and> (pass_from shape s p line (c # cols) rest_parts rest_lines = Inr s' \<longrightarrow>
            bug_count s + 1 \<le> bug_count s'
            \<and> (\<forall>k<length shape. c \<notin> set (positions (bug_part_matches s') (line_id line - int k)
                                           (part_id (shape ! (length shape - 1 - k))))))
       \<and> (find_bugs_in_landscape shape landscape = Inr n \<longrightarrow>
            (\<forall>q \<in> set shape. n \<le> matched_cells shape (part_id q) (reader landscape)))"
proof -
  let ?t1 = "register_bug_part_match (bug_part_matches s) p line c"
  let ?L = "line_id line"
  let ?row = "\<lambda>k. part_id (shape ! (length shape - 1 - k))"
  from deregister_after_belongs [OF assms(3)] obtain t3 where
    de: "deregister_bug_match shape t2 line c = Inr t3" by blast
  let ?s3 = "(increment_bug_count s)\<lparr>bug_part_matches := t3\<rparr>"
  have same: "\<And>l r. positions t2 l r = positions ?t1 l r"
    by (rule belongs_positions [OF assms(3)])
  have "table_distinct ?t1"
    using assms(1,2)
    by (auto simp: table_distinct_def register_bug_part_match_def positions_upd)
  then have d2: "table_distinct t2"
    using table_distinct_cong [of t2 ?t1] same by simp
  from deregister_loop_exact [OF de [unfolded deregister_bug_match_def] d2]
  have d3: "table_distinct t3" by simp
  have ex: "(c' \<in> set (positions t3 l r))
      = (c' \<in> set (positions ?t1 l r)
         \<and> \<not> (c' = c \<and> (\<exists>k<length shape. l = ?L - int k \<and> r = ?row k)))" for l r c'
    using deregister_bug_match_exact [OF de d2, of c' l r] by (simp only: same)
  have fl: "find_loop shape s p line (c # cols) = find_loop shape ?s3 p line cols"
    using assms(3) de by simp
  have cnt: "bug_count ?s3 = bug_count s + 1" by (simp add: increment_bug_count_def)
  have part1: "\<exists>t3. deregister_bug_match shape t2 line c = Inr t3
            \<and> find_loop shape s p line (c # cols)
                = find_loop shape ((increment_bug_count s)\<lparr>bug_part_matches := t3\<rparr>) p line cols
            \<and> bug_count ((increment_bug_count s)\<lparr>bug_part_matches := t3\<rparr>) = bug_count s + 1
            \<and> table_distinct t3
            \<and> (\<forall>l r c'. (c' \<in> set (positions t3 l r))
                  = (c' \<in> set (positions ?t1 l r)
                     \<and> \<not> (c' = c \<and> (\<exists>k<length shape. l = ?L - int k \<and> r = ?row k))))"
    using de fl cnt d3 ex by blast
  have part2: "\<forall>k<length shape. c \<in> set (positions t2 (?L - int k) (?row k))"
    using belongs_gives_chain [OF assms(3)] by (simp only: chain_shape_index)
  from assms(3) have ne: "shape \<noteq> []" and idl: "part_id p = part_id (last shape)"
    by (auto simp: bug_part_match_belongs_to_a_bug_def split: if_splits)
  have row0: "?row 0 = part_id p" using ne idl by (simp add: last_conv_nth)
  have gone3: "c \<notin> set (positions t3 (?L - int k) (?row k))" if "k < length shape" for k
    using ex [of c "?L - int k" "?row k"] that by blast
  have part3: "bug_count s + 1 \<le> bug_count s'
            \<and> (\<forall>k<length shape. c \<notin> set (positions (bug_part_matches s') (?L - int k) (?row k)))"
    if run: "pass_from shape s p line (c # cols) rest_parts rest_lines = Inr s'"
  proof -
    from run fl obtain s4 s5 where
      f4: "find_loop shape ?s3 p line cols = Inr s4"
      and f5: "(if should_skip_all_bug_parts_in_line (bug_part_matches s4) p line
                then Inr s4 else parts_loop shape s4 line rest_parts) = Inr s5"
      and f6: "lines_loop shape s5 rest_lines = Inr s'"
      unfolding pass_from_def by (auto split: sum.splits)
    note a4 = find_loop_subset [OF f4]
    have a5: "bug_count s4 \<le> bug_count s5
       \<and> set (positions (bug_part_matches s5) l r)
           \<subseteq> set (positions (bug_part_matches s4) l r)
               \<union> (if l = ?L \<and> r \<in> part_id ` set rest_parts then UNIV else {})" for l r
    proof (cases "should_skip_all_bug_parts_in_line (bug_part_matches s4) p line")
      case True
      with f5 show ?thesis by simp
    next
      case False
      with f5 have "parts_loop shape s4 line rest_parts = Inr s5" by simp
      then show ?thesis by (rule parts_loop_subset)
    qed
    note a6 = lines_loop_subset [OF f6]
    have "bug_count s + 1 \<le> bug_count s'"
      using a4 [of 0 0] a5 [of 0 0] a6 [of 0 0] cnt by simp
    moreover have "c \<notin> set (positions (bug_part_matches s') (?L - int k) (?row k))"
      if k: "k < length shape" for k
    proof -
      have n6: "?L - int k \<notin> line_id ` set rest_lines" using assms(6) by force
      have n5: "\<not> (?L - int k = ?L \<and> ?row k \<in> part_id ` set rest_parts)"
      proof (cases k)
        case 0
        with row0 assms(5) show ?thesis by simp
      next
        case (Suc j)
        then show ?thesis by simp
      qed
      have n4: "c \<notin> set (positions (bug_part_matches s4) (?L - int k) (?row k))"
        using a4 [of "?L - int k" "?row k"] gone3 [OF k] assms(4) by (auto split: if_splits)
      from n4 n5 a5 [of "?L - int k" "?row k"]
      have "c \<notin> set (positions (bug_part_matches s5) (?L - int k) (?row k))"
        by (auto split: if_splits)
      with n6 a6 [of "?L - int k" "?row k"] show ?thesis by (auto split: if_splits)
    qed
    ultimately show ?thesis by blast
  qed
  have part4: "find_bugs_in_landscape shape landscape = Inr n \<longrightarrow>
            (\<forall>q \<in> set shape. n \<le> matched_cells shape (part_id q) (reader landscape))"
    using count_bounded_by_cells by blast
  from part1 part2 part3 part4 show ?thesis by blast
qed


theorem retirement_exact_witness:
  "(\<exists>t3. deregister_bug_match
            [\<lparr>part_id = 0, part_pattern = format_pattern ''a''\<rparr>,
             \<lparr>part_id = 1, part_pattern = format_pattern ''b''\<rparr>]
            (register_bug_part_match [(0, 0) \<mapsto> [0, 1]]
               \<lparr>part_id = 1, part_pattern = format_pattern ''b''\<rparr>
               \<lparr>line_id = 1, line_pattern = ''bb''\<rparr> 0)
            \<lparr>line_id = 1, line_pattern = ''bb''\<rparr> 0 = Inr t3
          \<and> 0 \<notin> set (positions t3 1 1) \<and> 0 \<notin> set (positions t3 0 0)
          \<and> 1 \<in> set (positions t3 0 0))
   \<and> 1 \<le> bug_count (projr (pass_from
            [\<lparr>part_id = 0, part_pattern = format_pattern ''a''\<rparr>,
             \<lparr>part_id = 1, part_pattern = format_pattern ''b''\<rparr>]
            \<lparr>bug_part_matches = [(0, 0) \<mapsto> [0, 1]], bug_count = 0\<rparr>
            \<lparr>part_id = 1, part_pattern = format_pattern ''b''\<rparr>
            \<lparr>line_id = 1, line_pattern = ''bb''\<rparr> [0, 1] []
            [\<lparr>line_id = 2, line_pattern = ''ab''\<rparr>]))
   \<and> 0 \<notin> set (positions (bug_part_matches (projr (pass_from
            [\<lparr>part_id = 0, part_pattern = format_pattern ''a''\<rparr>,
             \<lparr>part_id = 1, part_pattern = format_pattern ''b''\<rparr>]
            \<lparr>bug_part_matches = [(0, 0) \<mapsto> [0, 1]], bug_count = 0\<rparr>
            \<lparr>part_id = 1, part_pattern = format_pattern ''b''\<rparr>
            \<lparr>line_id = 1, line_pattern = ''bb''\<rparr> [0, 1] []
            [\<lparr>line_id = 2, line_pattern = ''ab''\<rparr>]))) 0 0)
   \<and> (2::nat) \<le> matched_cells
            [\<lparr>part_id = 0, part_pattern = format_pattern ''a''\<rparr>,
             \<lparr>part_id = 1, part_pattern = format_pattern ''b''\<rparr>] 0
            (reader [CHR ''a'', CHR ''a'', CHR 0x0A, CHR ''b'', CHR ''b'', CHR 0x0A,
                     CHR ''a'', CHR ''b''])"
proof -
  let ?p0 = "\<lparr>part_id = 0, part_pattern = format_pattern ''a''\<rparr>"
  let ?p1 = "\<lparr>part_id = 1, part_pattern = format_pattern ''b''\<rparr>"
  let ?shape = "[?p0, ?p1]"
  let ?s = "\<lparr>bug_part_matches = [(0, 0) \<mapsto> [0, 1]], bug_count = 0\<rparr>"
  let ?line = "\<lparr>line_id = 1, line_pattern = ''bb''\<rparr>"
  let ?rest = "[\<lparr>line_id = 2, line_pattern = ''ab''\<rparr>]"
  let ?t1 = "register_bug_part_match [(0, 0) \<mapsto> [0, 1]] ?p1 ?line 0"
  let ?land = "[CHR ''a'', CHR ''a'', CHR 0x0A, CHR ''b'', CHR ''b'', CHR 0x0A, CHR ''a'', CHR ''b'']"
  let ?run = "pass_from ?shape ?s ?p1 ?line [0, 1] [] ?rest"
  have h1: "table_distinct (bug_part_matches ?s)"
    by (simp add: table_distinct_def positions_def)
  have h2: "0 \<notin> set (positions (bug_part_matches ?s) (line_id ?line) (part_id ?p1))"
    by (simp add: positions_def)
  have h3: "bug_part_match_belongs_to_a_bug ?shape
      (register_bug_part_match (bug_part_matches ?s) ?p1 ?line 0) ?p1 ?line 0 = Inr (True, ?t1)"
    by (simp add: bug_part_match_belongs_to_a_bug_def register_bug_part_match_def
        touch_def positions_def)
  have h4: "0 \<notin> set [1::nat]" by simp
  have h5: "part_id ?p1 \<notin> part_id ` set []" by simp
  have h6: "\<forall>l \<in> set ?rest. line_id ?line < line_id l" by simp
  have "\<not> isl ?run" by code_simp
  then have h7: "?run = Inr (projr ?run)" by simp
  have h8: "find_bugs_in_landscape ?shape ?land = Inr 2" by code_simp
  have in1: "1 \<in> set (positions (register_bug_part_match (bug_part_matches ?s) ?p1 ?line 0) 0 0)"
    by (simp add: positions_register) (simp add: positions_def)
  note inst = retirement_exact [OF h1 h2 h3 h4 h5 h6, of "projr ?run" ?land 2]
  from inst obtain t3 where de: "deregister_bug_match ?shape ?t1 ?line 0 = Inr t3"
    and ex: "\<And>l r c'. (c' \<in> set (positions t3 l r))
        = (c' \<in> set (positions (register_bug_part_match (bug_part_matches ?s) ?p1 ?line 0) l r)
           \<and> \<not> (c' = 0 \<and> (\<exists>k<length ?shape. l = line_id ?line - int k
                    \<and> r = part_id (?shape ! (length ?shape - 1 - k)))))"
    by auto
  have k0: "\<exists>k<length ?shape. (1::int) = line_id ?line - int k
                    \<and> (1::int) = part_id (?shape ! (length ?shape - 1 - k))"
    by (rule exI [of _ 0]) simp
  have k1: "\<exists>k<length ?shape. (0::int) = line_id ?line - int k
                    \<and> (0::int) = part_id (?shape ! (length ?shape - 1 - k))"
    by (rule exI [of _ 1]) simp
  from ex [of 0 1 1] k0 have a: "0 \<notin> set (positions t3 1 1)" by blast
  from ex [of 0 0 0] k1 have b: "0 \<notin> set (positions t3 0 0)" by blast
  have "(1::nat) \<noteq> 0" by simp
  with ex [of 1 0 0] in1 have c: "1 \<in> set (positions t3 0 0)" by blast
  from inst h7 have d: "bug_count ?s + 1 \<le> bug_count (projr ?run)"
    and e: "\<forall>k<length ?shape. 0 \<notin> set (positions (bug_part_matches (projr ?run))
               (line_id ?line - int k) (part_id (?shape ! (length ?shape - 1 - k))))"
    by blast+
  from e have e1: "0 \<notin> set (positions (bug_part_matches (projr ?run)) 0 0)"
    by (simp add: All_less_Suc)
  from inst h8 have f: "\<forall>q \<in> set ?shape. 2 \<le> matched_cells ?shape (part_id q) (reader ?land)"
    by blast
  then have f0: "2 \<le> matched_cells ?shape 0 (reader ?land)" by simp
  from de a b c d e1 f0 show ?thesis by auto
qed

end
